theory Spec2Isabelle
  imports Complex_Main
begin

section \<open>Floating-point cells\<close>

text \<open>
  The scripts compute with IEEE doubles.  Finite values are modelled as exact reals (no
  rounding, no overflow, no signed zero); the special values that the code tests for or
  that a CSV cell can hold are kept apart: \<open>NaN\<close> (an empty cell, or a mean over
  nothing) and the two infinities.  What is proved below of a finite value is therefore
  proved of the number the program would compute without rounding: a double of the program
  can differ from it in the last places, so that an equality or a bound that is met
  exactly here can be missed there by a rounding error.
\<close>

datatype pyfloat = Fin real | PInf | NInf | NaN

text \<open>The sign of a float as \<open>-1\<close>, \<open>0\<close> or \<open>1\<close>; \<open>NaN\<close> has none.\<close>

fun fsign :: "pyfloat \<Rightarrow> int option" where
  "fsign (Fin a) = Some (if a < 0 then - 1 else if a = 0 then 0 else 1)"
| "fsign PInf = Some 1"
| "fsign NInf = Some (- 1)"
| "fsign NaN = None"

definition inf_of_sign :: "int \<Rightarrow> pyfloat" where
  "inf_of_sign s = (if s < 0 then NInf else if s = 0 then NaN else PInf)"

fun fmul :: "pyfloat \<Rightarrow> pyfloat \<Rightarrow> pyfloat" where
  "fmul (Fin a) (Fin b) = Fin (a * b)"
| "fmul x y =
     (case (fsign x, fsign y) of
        (Some s, Some t) \<Rightarrow> inf_of_sign (s * t)
      | _ \<Rightarrow> NaN)"

fun fadd :: "pyfloat \<Rightarrow> pyfloat \<Rightarrow> pyfloat" where
  "fadd (Fin a) (Fin b) = Fin (a + b)"
| "fadd NaN y = NaN"
| "fadd x NaN = NaN"
| "fadd PInf NInf = NaN"
| "fadd NInf PInf = NaN"
| "fadd PInf y = PInf"
| "fadd NInf y = NInf"
| "fadd x PInf = PInf"
| "fadd x NInf = NInf"

text \<open>
  Division by a finite divisor (every divisor in the scripts is one), as numpy does it:
  a zero divisor gives an infinity or \<open>NaN\<close>, never an exception.
\<close>

fun fdiv :: "pyfloat \<Rightarrow> real \<Rightarrow> pyfloat" where
  "fdiv (Fin a) b =
     (if b = 0 then inf_of_sign (if a < 0 then - 1 else if a = 0 then 0 else 1)
      else Fin (a / b))"
| "fdiv PInf b = (if b < 0 then NInf else PInf)"
| "fdiv NInf b = (if b < 0 then PInf else NInf)"
| "fdiv NaN b = NaN"

text \<open>\<open>np.mean(xs) if len(xs) > 0 else np.nan\<close>; pandas' \<open>mean\<close> of an empty series is \<open>NaN\<close> too.\<close>

definition np_mean :: "real list \<Rightarrow> pyfloat" where
  "np_mean xs = (if length xs > 0 then Fin (sum_list xs / real (length xs)) else NaN)"

section \<open>The volume-clock aggregator (\<open>vpin_calculator.py\<close>)\<close>

text \<open>
  One row of the combined CSV, with the columns the two scripts read.  A timestamp is
  a number of seconds; its calendar date is the day it falls in.  The cells of
  \<open>price\<close>, \<open>tradevolume\<close> and \<open>abs_tradevolume\<close> are taken to hold finite
  numbers; the \<open>ILLIQ\<close> cell may be empty (\<open>NaN\<close>) or infinite.
\<close>

record trade_row =
  timestamp :: int
  price :: real
  tradevolume :: real
  abs_tradevolume :: real
  ILLIQ :: pyfloat

definition date :: "trade_row \<Rightarrow> int" where
  "date r = timestamp r div 86400"

text \<open>One entry of \<open>bucket_details\<close> (a row of the VPIN table).\<close>

record bucket =
  trade_index :: int
  bucket_timestamp :: int
  bucket_start_trade :: int
  bucket_abs_volume :: real
  bucket_net_volume :: real
  order_imbalance :: real
  bucket_number :: nat
  vpin_daily :: pyfloat
  vpin_5day :: pyfloat
  vpin_7day :: pyfloat

text \<open>
  The variables the bucketing loop carries: the open bucket, the three lists of
  \<open>bucket_imbalances_map\<close> and the buckets emitted so far.
\<close>

record vpin_state =
  current_bucket_abs_volume :: real
  current_bucket_net_volume :: real
  imbalances_daily :: "real list"
  imbalances_5day :: "real list"
  imbalances_7day :: "real list"
  bucket_details :: "bucket list"

definition initial_state :: vpin_state where
  "initial_state = \<lparr>current_bucket_abs_volume = 0, current_bucket_net_volume = 0,
     imbalances_daily = [], imbalances_5day = [], imbalances_7day = [], bucket_details = []\<rparr>"

text \<open>\<open>imbalances.append(order_imbalance)\<close>, then one \<open>pop(0)\<close> if the list is too long.\<close>

definition push_imbalance :: "nat \<Rightarrow> real \<Rightarrow> real list \<Rightarrow> real list" where
  "push_imbalance sample_length oi imbalances =
     (let imbalances' = imbalances @ [oi]
      in if length imbalances' > sample_length then tl imbalances' else imbalances')"

text \<open>
  The block the source writes twice (lines 79 to 101 in the loop, 109 to 130 after it):
  order imbalance of the open bucket, update of the three windows, and the new entry of
  \<open>bucket_details\<close>.  The division is numpy's; with \<open>bucket_size = 0\<close> HOL's
  quotient is 0 where numpy gives \<open>inf\<close> or \<open>NaN\<close>, and the loop below returns
  nothing in that case.
\<close>

definition emit_bucket :: "real \<Rightarrow> int \<Rightarrow> int \<Rightarrow> int \<Rightarrow> vpin_state \<Rightarrow> vpin_state" where
  "emit_bucket bucket_size tidx ts start st =
     (let oi = \<bar>current_bucket_net_volume st\<bar> / bucket_size;
          d = push_imbalance 50 oi (imbalances_daily st);
          f = push_imbalance 250 oi (imbalances_5day st);
          s = push_imbalance 350 oi (imbalances_7day st);
          details = \<lparr>trade_index = tidx, bucket_timestamp = ts, bucket_start_trade = start,
             bucket_abs_volume = current_bucket_abs_volume st,
             bucket_net_volume = current_bucket_net_volume st,
             order_imbalance = oi,
             bucket_number = length (bucket_details st),
             vpin_daily = np_mean d, vpin_5day = np_mean f, vpin_7day = np_mean s\<rparr>
      in st\<lparr>imbalances_daily := d, imbalances_5day := f, imbalances_7day := s,
            bucket_details := bucket_details st @ [details]\<rparr>)"

definition reset_bucket :: "vpin_state \<Rightarrow> vpin_state" where
  "reset_bucket st = st\<lparr>current_bucket_abs_volume := 0, current_bucket_net_volume := 0\<rparr>"

text \<open>
  One pass through the body of \<open>while remaining_volume > 0\<close> (lines 60 to 105): the
  new state of the aggregator and the new \<open>remaining_volume\<close> and
  \<open>remaining_net_volume\<close>.
\<close>

definition fill_step ::
  "real \<Rightarrow> int \<Rightarrow> int \<Rightarrow> real \<Rightarrow> real \<Rightarrow> real \<Rightarrow> vpin_state \<Rightarrow> real \<times> real \<times> vpin_state" where
  "fill_step bucket_size idx ts abs_trade_volume remaining_volume remaining_net_volume st =
     (let volume_needed_for_bucket = bucket_size - current_bucket_abs_volume st;
          volume_to_add = min remaining_volume volume_needed_for_bucket;
          proportion = volume_to_add / abs_trade_volume;
          net_volume_to_add = remaining_net_volume * proportion;
          st1 = st\<lparr>current_bucket_abs_volume := current_bucket_abs_volume st + volume_to_add,
                   current_bucket_net_volume := current_bucket_net_volume st + net_volume_to_add\<rparr>;
          st2 = (if current_bucket_abs_volume st1 \<ge> bucket_size
                 then reset_bucket (emit_bucket bucket_size idx ts
                        (idx - int (length (bucket_details st1))) st1)
                 else st1)
      in (remaining_volume - volume_to_add, remaining_net_volume - net_volume_to_add, st2))"

text \<open>
  The \<open>while\<close> loop itself.  It need not end: \<open>None\<close> is a run that returns
  nothing.  That is the case of a bucket size that is not positive: every pass closes a
  bucket and takes nothing from the trade, and the program appends an entry to
  \<open>bucket_details\<close> on every pass (line 101) until its memory is exhausted.
\<close>

partial_function (option) fill_buckets ::
  "real \<Rightarrow> int \<Rightarrow> int \<Rightarrow> real \<Rightarrow> real \<Rightarrow> real \<Rightarrow> vpin_state \<Rightarrow> vpin_state option" where
  "fill_buckets bucket_size idx ts abs_trade_volume remaining_volume remaining_net_volume st =
     (if remaining_volume > 0
      then (case fill_step bucket_size idx ts abs_trade_volume remaining_volume remaining_net_volume st of
              (remaining_volume', remaining_net_volume', st') \<Rightarrow>
                fill_buckets bucket_size idx ts abs_trade_volume remaining_volume' remaining_net_volume' st')
      else Some st)"

text \<open>\<open>for idx, row in df.iterrows()\<close>, with \<open>idx\<close> counting from the given start.\<close>

fun process_trades :: "real \<Rightarrow> int \<Rightarrow> trade_row list \<Rightarrow> vpin_state \<Rightarrow> vpin_state option" where
  "process_trades bucket_size idx [] st = Some st"
| "process_trades bucket_size idx (row # rows) st =
     (let trade_volume = tradevolume row;
          abs_trade_volume = \<bar>trade_volume\<bar>
      in case fill_buckets bucket_size idx (timestamp row) abs_trade_volume abs_trade_volume trade_volume st of
           None \<Rightarrow> None
         | Some st' \<Rightarrow> process_trades bucket_size (idx + 1) rows st')"

text \<open>
  Lines 107 to 130: what is left in the open bucket becomes a last entry.  The open
  bucket is not empty only after a trade, so that the frame has a last row then.
\<close>

definition final_bucket :: "real \<Rightarrow> trade_row list \<Rightarrow> vpin_state \<Rightarrow> vpin_state" where
  "final_bucket bucket_size df st =
     (if current_bucket_abs_volume st > 0
      then emit_bucket bucket_size (int (length df) - 1) (timestamp (last df)) (int (length df) - 1) st
      else st)"

text \<open>The streaming pass for a given bucket size: the loop, then the last bucket.\<close>

definition bucket_pass :: "real \<Rightarrow> trade_row list \<Rightarrow> vpin_state option" where
  "bucket_pass bucket_size df =
     (case process_trades bucket_size 0 df initial_state of
        None \<Rightarrow> None
      | Some st \<Rightarrow> Some (final_bucket bucket_size df st))"

text \<open>
  Lines 30 to 37: the sum of \<open>abs_tradevolume\<close> per calendar date, their mean, and
  a fiftieth of it.  The mean over no date is \<open>NaN\<close>.
\<close>

definition daily_volume :: "trade_row list \<Rightarrow> real list" where
  "daily_volume df =
     map (\<lambda>d. sum_list (map abs_tradevolume (filter (\<lambda>r. date r = d) df)))
         (sort (remdups (map date df)))"

definition bucket_size_of :: "trade_row list \<Rightarrow> pyfloat" where
  "bucket_size_of df = fdiv (np_mean (daily_volume df)) 50"

datatype error = KeyError | UnboundLocalError | ValueError | ZeroDivisionError

text \<open>
  \<open>calculate_vpin\<close> on the rows of the input file, up to line 130.  Rows of zero
  volume are dropped first.  The bucket size is not a finite number only when it is the
  mean over no date, that is for a frame with no row: then the loop has nothing to
  iterate over and the open bucket stays empty.
\<close>

abbreviation traded :: "trade_row list \<Rightarrow> trade_row list" where
  "traded rows \<equiv> filter (\<lambda>r. tradevolume r \<noteq> 0) rows"

definition run_buckets :: "trade_row list \<Rightarrow> vpin_state option" where
  "run_buckets rows =
     (let df = traded rows
      in case bucket_size_of df of
           Fin bucket_size \<Rightarrow> bucket_pass bucket_size df
         | _ \<Rightarrow> Some initial_state)"

text \<open>
  The rest of \<open>calculate_vpin\<close>.  The summary printed after the pass reads the column
  \<open>order_imbalance\<close> of the bucket table, which a table built from no bucket does
  not have: \<open>KeyError\<close>.  Otherwise the table is written and returned.
\<close>

definition calculate_vpin :: "trade_row list \<Rightarrow> (error + bucket list) option" where
  "calculate_vpin rows =
     (case run_buckets rows of
        None \<Rightarrow> None
      | Some st \<Rightarrow>
          Some (if bucket_details st = [] then Inl KeyError else Inr (bucket_details st)))"


section \<open>The fee estimator (\<open>fee_calculation_sim.py\<close>)\<close>

subsection \<open>The position model\<close>

text \<open>The entries of \<open>position_params\<close> that \<open>calculate_token_amounts_at_price\<close> reads.\<close>

record position_params =
  lower_price :: real
  upper_price :: real
  liquidity :: real
  sqrt_lower :: real
  sqrt_upper :: real

record position_state =
  ps_price :: real
  token0 :: real
  token1 :: real
  total_value :: real
  inventory_exposure :: real

text \<open>
  \<open>math.sqrt\<close> raises \<open>ValueError\<close> on a negative argument, and the quotient of two
  Python floats raises \<open>ZeroDivisionError\<close> on a zero divisor (the square roots and
  the liquidity are Python floats).  The last quotient is guarded by the source.
\<close>

definition calculate_token_amounts_at_price :: "real \<Rightarrow> position_params \<Rightarrow> error + position_state" where
  "calculate_token_amounts_at_price p position_params =
     (if p < 0 then Inl ValueError
      else
        let sqrt_price = sqrt p;
            amounts =
              (if p \<le> lower_price position_params then
                 (if sqrt_lower position_params * sqrt_upper position_params = 0 then Inl ZeroDivisionError
                  else Inr (liquidity position_params * (sqrt_upper position_params - sqrt_lower position_params)
                              / (sqrt_lower position_params * sqrt_upper position_params), 0))
               else if p \<ge> upper_price position_params then
                 Inr (0, liquidity position_params * (sqrt_upper position_params - sqrt_lower position_params))
               else
                 (if sqrt_price * sqrt_upper position_params = 0 then Inl ZeroDivisionError
                  else Inr (liquidity position_params * (sqrt_upper position_params - sqrt_price)
                              / (sqrt_price * sqrt_upper position_params),
                            liquidity position_params * (sqrt_price - sqrt_lower position_params))))
        in case amounts of
             Inl e \<Rightarrow> Inl e
           | Inr (t0, t1) \<Rightarrow>
               (let tv = t0 * p + t1
                in Inr \<lparr>ps_price = p, token0 = t0, token1 = t1, total_value = tv,
                        inventory_exposure = (if tv > 0 then t0 * p / tv else 0)\<rparr>))"

subsection \<open>The per-trade loop\<close>

text \<open>
  The VPIN table as the simulator holds it: one \<^typ>\<open>bucket\<close> per row.  Its numeric
  columns by name, for the test \<open>vpin_type in self.vpin_data.columns\<close>.  The docstring
  allows the three \<open>vpin\<close> names; the \<open>timestamp\<close> column holds dates, on which the
  source would fail at the first product, and is left out.
\<close>

definition vpin_column :: "string \<Rightarrow> (bucket \<Rightarrow> pyfloat) option" where
  "vpin_column name =
     (if name = ''vpin_daily'' then Some vpin_daily
      else if name = ''vpin_5day'' then Some vpin_5day
      else if name = ''vpin_7day'' then Some vpin_7day
      else if name = ''order_imbalance'' then Some (\<lambda>b. Fin (order_imbalance b))
      else if name = ''bucket_abs_volume'' then Some (\<lambda>b. Fin (bucket_abs_volume b))
      else if name = ''bucket_net_volume'' then Some (\<lambda>b. Fin (bucket_net_volume b))
      else if name = ''trade_index'' then Some (\<lambda>b. Fin (real_of_int (trade_index b)))
      else if name = ''bucket_start_trade'' then Some (\<lambda>b. Fin (real_of_int (bucket_start_trade b)))
      else if name = ''bucket_number'' then Some (\<lambda>b. Fin (real (bucket_number b)))
      else None)"

text \<open>
  The variables that live across iterations of the loop.  \<open>latest_vpin\<close> and
  \<open>latest_illiq\<close> may be Python's \<open>None\<close>; \<open>inventory_exposure\<close> is a local variable
  that is unbound until its first assignment.
\<close>

record fee_state =
  vpin_idx :: nat
  latest_vpin :: "pyfloat option"
  latest_illiq :: "pyfloat option"
  inventory_exposure_local :: "real option"

text \<open>One entry of \<open>results\<close>.\<close>

record fee_row =
  out_timestamp :: int
  out_price :: real
  trade_volume :: real
  abs_trade_volume :: real
  out_ILLIQ :: "pyfloat option"
  vpin_used :: "pyfloat option"
  estimated_price_impact :: pyfloat
  expected_impermanent_loss :: pyfloat
  base_fee :: real
  vpin_fee_pct_of_volume :: pyfloat
  vpin_fee_absolute :: pyfloat
  total_fee :: pyfloat
  fee_pct_of_volume :: pyfloat
  out_inventory_exposure :: real

text \<open>Lines 359 to 361: \<open>while vpin_idx + 1 < n_vpin and vpin_timestamps[vpin_idx + 1] <= timestamp\<close>.\<close>

function move_vpin_index ::
  "int list \<Rightarrow> pyfloat list \<Rightarrow> int \<Rightarrow> nat \<Rightarrow> pyfloat option \<Rightarrow> nat \<times> pyfloat option" where
  "move_vpin_index vpin_timestamps vpin_values ts idx latest =
     (if idx + 1 < length vpin_timestamps \<and> vpin_timestamps ! (idx + 1) \<le> ts
      then move_vpin_index vpin_timestamps vpin_values ts (idx + 1) (Some (vpin_values ! (idx + 1)))
      else (idx, latest))"
  by pat_completeness auto
termination
  by (relation "measure (\<lambda>(tss, vs, ts, idx, latest). length tss - idx)") auto

declare move_vpin_index.simps [simp del]

text \<open>
  Lines 366 to 370: the row's own observation, \<open>None\<close> for an empty cell (\<open>pd.notna\<close>
  is false on \<open>NaN\<close> only) and for a cell equal to \<open>0.0\<close>.
\<close>

definition current_illiq_of :: "trade_row \<Rightarrow> pyfloat option" where
  "current_illiq_of row =
     (case ILLIQ row of
        NaN \<Rightarrow> None
      | Fin a \<Rightarrow> (if a = 0 then None else Some (Fin a))
      | v \<Rightarrow> Some v)"

text \<open>
  The body of the loop (lines 353 to 429) on one row: the new loop variables and the
  entry appended to \<open>results\<close>, or the exception that ends the run.  The names of
  the source's local variables are those of the fields of the entry, so they are
  shortened here: \<open>abs_tv\<close> is \<open>abs_trade_volume\<close>, \<open>epi\<close> is
  \<open>estimated_price_impact\<close>, \<open>eil\<close> is \<open>expected_impermanent_loss\<close>, \<open>ie\<close> is
  \<open>inventory_exposure\<close>, \<open>bf\<close> is \<open>base_fee\<close>, \<open>vfp\<close> is
  \<open>vpin_fee_pct_of_volume\<close>, \<open>vfa\<close> is \<open>vpin_fee_absolute\<close>, \<open>tf\<close> is
  \<open>total_fee\<close> and \<open>fp\<close> is \<open>fee_pct\<close>.  \<open>priced\<close> is the outcome of lines 372 to
  388: the call of the position model may raise, and \<open>inventory_exposure\<close> is
  assigned only for a trade of positive volume.  Reading it at line 428 while it is
  unbound raises \<open>UnboundLocalError\<close>.
\<close>

definition fee_step ::
  "position_params \<Rightarrow> int list \<Rightarrow> pyfloat list \<Rightarrow> real \<Rightarrow> fee_state \<Rightarrow> trade_row \<Rightarrow> error + (fee_state \<times> fee_row)" where
  "fee_step position_params vpin_timestamps vpin_values base_fee_pct st row =
     (let abs_tv = \<bar>tradevolume row\<bar>;
          (idx', vpin_at_time) =
             move_vpin_index vpin_timestamps vpin_values (timestamp row) (vpin_idx st) (latest_vpin st);
          current_illiq = current_illiq_of row;
          priced =
            (if abs_tv > 0 then
               (case calculate_token_amounts_at_price (price row) position_params of
                  Inl e \<Rightarrow> Inl e
                | Inr position_state \<Rightarrow>
                    (let ie = inventory_exposure position_state
                     in case latest_illiq st of
                          Some illiq \<Rightarrow>
                            (let epi = fdiv (fmul illiq (Fin abs_tv)) 1000000
                             in Inr (Some ie, epi, fmul epi (Fin ie)))
                        | None \<Rightarrow> Inr (Some ie, Fin 0, Fin 0)))
             else Inr (inventory_exposure_local st, Fin 0, Fin 0))
      in case priced of
           Inl e \<Rightarrow> Inl e
         | Inr (ie_local, epi, eil) \<Rightarrow>
             (let latest_illiq' = (case current_illiq of Some v \<Rightarrow> Some v | None \<Rightarrow> latest_illiq st);
                  bf = (if abs_tv > 0 then (base_fee_pct / 100) * abs_tv else 0);
                  vfp = (case vpin_at_time of Some v \<Rightarrow> fmul eil v | None \<Rightarrow> Fin 0);
                  vfa = (if abs_tv > 0 then fmul vfp (Fin abs_tv) else Fin 0);
                  tf = fadd (Fin bf) vfa;
                  fp = (if abs_tv > 0 then fdiv tf abs_tv else Fin 0)
              in case ie_local of
                   None \<Rightarrow> Inl UnboundLocalError
                 | Some ie \<Rightarrow>
                     Inr (\<lparr>vpin_idx = idx', latest_vpin = vpin_at_time, latest_illiq = latest_illiq',
                            inventory_exposure_local = Some ie\<rparr>,
                          \<lparr>out_timestamp = timestamp row, out_price = price row,
                            trade_volume = tradevolume row, abs_trade_volume = abs_tv,
                            out_ILLIQ = current_illiq, vpin_used = vpin_at_time,
                            estimated_price_impact = epi, expected_impermanent_loss = eil,
                            base_fee = bf, vpin_fee_pct_of_volume = vfp, vpin_fee_absolute = vfa,
                            total_fee = tf, fee_pct_of_volume = fp,
                            out_inventory_exposure = ie\<rparr>)))"

text \<open>\<open>for idx, row in self.data.iterrows()\<close>: the final loop variables and \<open>results\<close>.\<close>

fun fee_loop ::
  "position_params \<Rightarrow> int list \<Rightarrow> pyfloat list \<Rightarrow> real \<Rightarrow> fee_state \<Rightarrow> trade_row list \<Rightarrow> error + (fee_state \<times> fee_row list)" where
  "fee_loop position_params vpin_timestamps vpin_values base_fee_pct st [] = Inr (st, [])"
| "fee_loop position_params vpin_timestamps vpin_values base_fee_pct st (row # rows) =
     (case fee_step position_params vpin_timestamps vpin_values base_fee_pct st row of
        Inl e \<Rightarrow> Inl e
      | Inr (st', out) \<Rightarrow>
          (case fee_loop position_params vpin_timestamps vpin_values base_fee_pct st' rows of
             Inl e \<Rightarrow> Inl e
           | Inr (st'', outs) \<Rightarrow> Inr (st'', out # outs)))"

text \<open>Lines 343 to 350: the loop variables before the first row.\<close>

definition fee_initial :: "pyfloat list \<Rightarrow> fee_state" where
  "fee_initial vpin_values =
     \<lparr>vpin_idx = 0,
      latest_vpin = (if length vpin_values > 0 then Some (vpin_values ! 0) else None),
      latest_illiq = None,
      inventory_exposure_local = None\<rparr>"

text \<open>
  \<open>calculate_fees_with_vpin_full_timeseries\<close>, on the rows of \<open>self.data\<close> and on
  \<open>self.vpin_data\<close> (\<open>None\<close> when no VPIN file was loaded).  Without VPIN data or
  without the chosen column it returns an empty frame.
\<close>

definition calculate_fees_with_vpin_full_timeseries ::
  "trade_row list \<Rightarrow> bucket list option \<Rightarrow> position_params \<Rightarrow> string \<Rightarrow> real \<Rightarrow> error + fee_row list" where
  "calculate_fees_with_vpin_full_timeseries data vpin_data position_params vpin_type base_fee_pct =
     (case vpin_data of
        None \<Rightarrow> Inr []
      | Some vd \<Rightarrow>
          (case vpin_column vpin_type of
             None \<Rightarrow> Inr []
           | Some col \<Rightarrow>
               (let vpin_timestamps = map bucket_timestamp vd;
                    vpin_values = map col vd
                in case fee_loop position_params vpin_timestamps vpin_values base_fee_pct
                          (fee_initial vpin_values) data of
                     Inl e \<Rightarrow> Inl e
                   | Inr (st, results) \<Rightarrow> Inr results)))"

section \<open>Scenarios\<close>

text \<open>What the spec's scenarios look at in a bucket: absolute volume, net volume, imbalance.\<close>

definition bucket_summary :: "bucket \<Rightarrow> real \<times> real \<times> real" where
  "bucket_summary b = (bucket_abs_volume b, bucket_net_volume b, order_imbalance b)"

text \<open>A row with the given timestamp and signed volume, and no impact observation.\<close>

definition trade :: "int \<Rightarrow> real \<Rightarrow> trade_row" where
  "trade ts v = \<lparr>timestamp = ts, price = 1, tradevolume = v, abs_tradevolume = \<bar>v\<bar>, ILLIQ = NaN\<rparr>"

definition scenario_tape :: "trade_row list" where
  "scenario_tape = [trade 1 30, trade 2 (- 20), trade 3 60]"

text \<open>One day of fifty trades of one unit each: the bucket size is 1.\<close>

definition unit_tape :: "trade_row list" where
  "unit_tape = map (\<lambda>i. trade (int i) 1) [0..<50]"

text \<open>
  One day of forty-eight trades of one unit and a last trade of two units: the bucket
  size is 1 again, and the last trade is split across two buckets.
\<close>

definition split_tape :: "trade_row list" where
  "split_tape = map (\<lambda>i. trade (int i) 1) [0..<48] @ [trade 48 2]"

text \<open>
  A position whose exposure at the price 4 is \<open>0.4\<close>: the square roots of its bounds
  are \<open>1/2\<close> and 4.  A row at that price, and a bucket whose toxicity is \<open>x\<close> in all
  three windows.
\<close>

definition scenario_position :: position_params where
  "scenario_position =
     \<lparr>lower_price = 1 / 4, upper_price = 16, liquidity = 1, sqrt_lower = 1 / 2, sqrt_upper = 4\<rparr>"

definition priced_trade :: "int \<Rightarrow> real \<Rightarrow> pyfloat \<Rightarrow> trade_row" where
  "priced_trade ts v obs =
     \<lparr>timestamp = ts, price = 4, tradevolume = v, abs_tradevolume = \<bar>v\<bar>, ILLIQ = obs\<rparr>"

definition toxic_bucket :: "int \<Rightarrow> real \<Rightarrow> bucket" where
  "toxic_bucket ts x =
     \<lparr>trade_index = 0, bucket_timestamp = ts, bucket_start_trade = 0, bucket_abs_volume = 1,
      bucket_net_volume = x, order_imbalance = x, bucket_number = 0,
      vpin_daily = Fin x, vpin_5day = Fin x, vpin_7day = Fin x\<rparr>"

text \<open>
  Three tapes at the price 4: an observation of \<open>1,000,000\<close> followed by a trade of 10
  units; a trade, a row of zero volume that carries an observation, and a trade of 10
  units; an infinite observation followed by a trade of 10 units.
\<close>

definition priced_tape :: "trade_row list" where
  "priced_tape = [priced_trade 1 1 (Fin 1000000), priced_trade 2 10 NaN]"

definition idle_tape :: "trade_row list" where
  "idle_tape = [priced_trade 1 1 NaN, priced_trade 2 0 (Fin 2000000), priced_trade 3 10 NaN]"

definition infinite_tape :: "trade_row list" where
  "infinite_tape = [priced_trade 1 1 PInf, priced_trade 2 10 NaN]"

text \<open>What the scenarios look at in the rows of a fee table.\<close>

definition toxicity_summary :: "fee_row \<Rightarrow> pyfloat option \<times> pyfloat" where
  "toxicity_summary r = (vpin_used r, vpin_fee_pct_of_volume r)"

definition fee_summary :: "fee_row \<Rightarrow> pyfloat \<times> pyfloat \<times> pyfloat \<times> real \<times> pyfloat" where
  "fee_summary r =
     (estimated_price_impact r, expected_impermanent_loss r, vpin_fee_pct_of_volume r,
      base_fee r, total_fee r)"

definition emitted :: "vpin_state option \<Rightarrow> (real \<times> real \<times> real) list option" where
  "emitted r = map_option (\<lambda>st. map bucket_summary (bucket_details st)) r"

section \<open>Notions of the specification\<close>

text \<open>
  A bucket closed at the threshold, in the words of the spec: its absolute volume is
  the bucket size, its imbalance is \<open>|net_volume| / B\<close> and lies between 0 and 1.
\<close>

definition closed_at :: "real \<Rightarrow> bucket \<Rightarrow> bool" where
  "closed_at B b \<longleftrightarrow>
     bucket_abs_volume b = B \<and> order_imbalance b = \<bar>bucket_net_volume b\<bar> / B
     \<and> 0 \<le> order_imbalance b \<and> order_imbalance b \<le> 1"

text \<open>The most recent \<open>n\<close> values of a series, and the arithmetic mean.\<close>

definition window :: "nat \<Rightarrow> real list \<Rightarrow> real list" where
  "window n xs = drop (length xs - n) xs"

definition mean :: "real list \<Rightarrow> real" where
  "mean xs = sum_list xs / real (length xs)"

text \<open>
  A toxicity column reports, at every bucket, the mean of the most recent \<open>n\<close>
  imbalances up to and including that bucket.
\<close>

definition reports :: "nat \<Rightarrow> (bucket \<Rightarrow> pyfloat) \<Rightarrow> bucket list \<Rightarrow> bool" where
  "reports n col bs \<longleftrightarrow>
     (\<forall>k < length bs. col (bs ! k) = Fin (mean (window n (take (Suc k) (map order_imbalance bs)))))"

text \<open>
  An impact observation that counts: the cell is not empty and not zero.  The latest
  valid impact of a sequence of rows is the last observation of theirs that counts.
\<close>

definition valid_impact :: "pyfloat \<Rightarrow> bool" where
  "valid_impact v \<longleftrightarrow> v \<noteq> NaN \<and> v \<noteq> Fin 0"

definition latest_valid_impact :: "trade_row list \<Rightarrow> pyfloat option" where
  "latest_valid_impact rows =
     (case filter valid_impact (map ILLIQ rows) of
        [] \<Rightarrow> None
      | v # vs \<Rightarrow> Some (last (v # vs)))"

text \<open>A row with its zero observation replaced by an empty cell.\<close>

definition blank_zero :: "trade_row \<Rightarrow> trade_row" where
  "blank_zero r = (if ILLIQ r = Fin 0 then r\<lparr>ILLIQ := NaN\<rparr> else r)"

text \<open>
  The toxicity in force at a time \<open>t\<close>: the chosen column of the last bucket of the
  table that closed at or before \<open>t\<close>; of the first bucket when none has closed yet;
  nothing when the table has no bucket.
\<close>

definition toxicity_at :: "bucket list \<Rightarrow> (bucket \<Rightarrow> pyfloat) \<Rightarrow> int \<Rightarrow> pyfloat option" where
  "toxicity_at vd col t =
     (case vd of
        [] \<Rightarrow> None
      | b0 # _ \<Rightarrow>
          (case filter (\<lambda>b. bucket_timestamp b \<le> t) vd of
             [] \<Rightarrow> Some (col b0)
           | c # cs \<Rightarrow> Some (col (last (c # cs)))))"

section \<open>Invariants of the bucketing loop\<close>

text \<open>
  Between two passes of the loop the open bucket is below the threshold, its net volume
  is bounded by its absolute volume, and every bucket emitted so far was closed at the
  threshold.
\<close>

definition open_ok :: "real \<Rightarrow> vpin_state \<Rightarrow> bool" where
  "open_ok B st \<longleftrightarrow>
     0 \<le> current_bucket_abs_volume st \<and> current_bucket_abs_volume st < B
     \<and> \<bar>current_bucket_net_volume st\<bar> \<le> current_bucket_abs_volume st
     \<and> (\<forall>b \<in> set (bucket_details st). closed_at B b)"

text \<open>Moreover a bucket has been emitted or the open bucket is not empty.\<close>

definition started :: "real \<Rightarrow> vpin_state \<Rightarrow> bool" where
  "started B st \<longleftrightarrow>
     open_ok B st \<and> (bucket_details st \<noteq> [] \<or> 0 < current_bucket_abs_volume st)"

text \<open>The three lists hold the most recent imbalances, and the columns report their means.\<close>

definition windows_ok :: "vpin_state \<Rightarrow> bool" where
  "windows_ok st \<longleftrightarrow>
     imbalances_daily st = window 50 (map order_imbalance (bucket_details st))
     \<and> imbalances_5day st = window 250 (map order_imbalance (bucket_details st))
     \<and> imbalances_7day st = window 350 (map order_imbalance (bucket_details st))
     \<and> reports 50 vpin_daily (bucket_details st)
     \<and> reports 250 vpin_5day (bucket_details st)
     \<and> reports 350 vpin_7day (bucket_details st)"

section \<open>Properties of the aggregator\<close>

subsection \<open>The loop \<open>while remaining_volume > 0\<close>\<close>

text \<open>
  An invariant of the loop body holds when the loop returns, together with the
  negated loop condition.
\<close>

lemma fill_buckets_rule:
  assumes run: "fill_buckets B idx ts a r rn st = Some st'"
    and init: "I r rn st"
    and step: "\<And>r rn st. I r rn st \<Longrightarrow> 0 < r \<Longrightarrow>
            (case fill_step B idx ts a r rn st of (r', rn', st2) \<Rightarrow> I r' rn' st2)"
  shows "\<exists>r' rn'. I r' rn' st' \<and> \<not> 0 < r'"
proof -
  define S where "S B' idx' ts' a' \<longleftrightarrow> (\<forall>r rn st. I r rn st \<longrightarrow> 0 < r \<longrightarrow>
            (case fill_step B' idx' ts' a' r rn st of (r', rn', st2) \<Rightarrow> I r' rn' st2))"
    for B' idx' ts' a'
  have "S B idx ts a \<longrightarrow> I r rn st \<longrightarrow> (\<exists>r' rn'. I r' rn' st' \<and> \<not> 0 < r')"
  proof (rule fill_buckets.raw_induct
      [where P = "\<lambda>B idx ts a r rn st st'. S B idx ts a \<longrightarrow> I r rn st \<longrightarrow> (\<exists>r' rn'. I r' rn' st' \<and> \<not> 0 < r')",
        OF _ run], intro impI)
    fix f B idx ts a r rn st st'
    assume IH: "\<And>B idx ts a r rn st st'. f B idx ts a r rn st = Some st' \<Longrightarrow>
        S B idx ts a \<longrightarrow> I r rn st \<longrightarrow> (\<exists>r' rn'. I r' rn' st' \<and> \<not> 0 < r')"
      and body: "(if 0 < r then case fill_step B idx ts a r rn st of
             (r', rn', st2) \<Rightarrow> f B idx ts a r' rn' st2 else Some st) = Some st'"
      and S: "S B idx ts a" and I: "I r rn st"
    show "\<exists>r' rn'. I r' rn' st' \<and> \<not> 0 < r'"
    proof (cases "0 < r")
      case False
      with body have "st' = st" by simp
      with I False show ?thesis by blast
    next
      case True
      obtain r1 rn1 st1 where fs: "fill_step B idx ts a r rn st = (r1, rn1, st1)"
        by (cases "fill_step B idx ts a r rn st") auto
      from body True fs have "f B idx ts a r1 rn1 st1 = Some st'" by simp
      moreover from S I True fs have "I r1 rn1 st1" unfolding S_def by fastforce
      ultimately show ?thesis using IH S by blast
    qed
  qed
  moreover have "S B idx ts a" unfolding S_def using step by blast
  ultimately show ?thesis using init by blast
qed

text \<open>
  With a bucket size that is not positive the loop never ends on a trade of positive
  volume: every pass closes a bucket and takes nothing from the trade.
\<close>

lemma fill_buckets_diverges:
  assumes "B \<le> 0" and "B \<le> current_bucket_abs_volume st" and "0 < r"
  shows "fill_buckets B idx ts a r rn st = None"
proof (rule ccontr)
  assume "fill_buckets B idx ts a r rn st \<noteq> None"
  then obtain st' where run: "fill_buckets B idx ts a r rn st = Some st'" by auto
  let ?J = "\<lambda>(r::real) (rn::real) st. B \<le> 0 \<and> B \<le> current_bucket_abs_volume st \<and> 0 < r"
  have init: "?J r rn st" using assms by simp
  have step: "case fill_step B idx ts a r rn st of (r', rn', st2) \<Rightarrow> ?J r' rn' st2"
    if "?J r rn st" "0 < r" for r rn st
    using that by (simp add: fill_step_def Let_def reset_bucket_def emit_bucket_def min_def)
  from fill_buckets_rule[of B idx ts a r rn st st' ?J, OF run init step]
  show False by blast
qed

lemma fill_buckets_terminates:
  assumes B: "0 < B"
  shows "0 \<le> current_bucket_abs_volume st \<Longrightarrow> current_bucket_abs_volume st < B \<Longrightarrow>
     current_bucket_abs_volume st + r < real k * B \<Longrightarrow>
     \<exists>st'. fill_buckets B idx ts a r rn st = Some st'"
proof (induction k arbitrary: r rn st)
  case 0
  then have "\<not> 0 < r" by simp
  then show ?case by (subst fill_buckets.simps) simp
next
  case (Suc k)
  show ?case
  proof (cases "0 < r")
    case False
    then show ?thesis by (subst fill_buckets.simps) simp
  next
    case True
    obtain r1 rn1 st1 where fs: "fill_step B idx ts a r rn st = (r1, rn1, st1)"
      by (cases "fill_step B idx ts a r rn st") auto
    show ?thesis
    proof (cases "r < B - current_bucket_abs_volume st")
      case True
      with fs have "r1 = 0" by (auto simp: fill_step_def Let_def min_def)
      then have "fill_buckets B idx ts a r1 rn1 st1 = Some st1"
        by (subst fill_buckets.simps) simp
      with fs \<open>0 < r\<close> show ?thesis by (subst fill_buckets.simps) simp
    next
      case False
      with fs Suc.prems B have "0 \<le> current_bucket_abs_volume st1" "current_bucket_abs_volume st1 < B"
        "current_bucket_abs_volume st1 + r1 < real k * B"
        by (auto simp: fill_step_def Let_def min_def reset_bucket_def emit_bucket_def algebra_simps)
      from Suc.IH[OF this] obtain st' where "fill_buckets B idx ts a r1 rn1 st1 = Some st'" by blast
      with fs \<open>0 < r\<close> show ?thesis by (subst fill_buckets.simps) simp
    qed
  qed
qed


lemma process_trades_rule:
  assumes step: "\<And>idx (row::trade_row) st st'. I st \<Longrightarrow>
           fill_buckets B idx (timestamp row) \<bar>tradevolume row\<bar> \<bar>tradevolume row\<bar> (tradevolume row) st = Some st'
           \<Longrightarrow> I st'"
  shows "process_trades B idx rows st = Some st' \<Longrightarrow> I st \<Longrightarrow> I st'"
proof (induction rows arbitrary: idx st)
  case Nil
  then show ?case by simp
next
  case (Cons row rows)
  from Cons.prems(1) obtain st1 where
    f: "fill_buckets B idx (timestamp row) \<bar>tradevolume row\<bar> \<bar>tradevolume row\<bar> (tradevolume row) st = Some st1"
    and p: "process_trades B (idx + 1) rows st1 = Some st'"
    by (auto simp: Let_def split: option.splits)
  from step[OF Cons.prems(2) f] have "I st1" .
  from Cons.IH[OF p this] show ?case .
qed

lemma fragment_bound:
  fixes a rn t :: real
  assumes "0 < a" "\<bar>rn\<bar> \<le> a" "0 \<le> t"
  shows "\<bar>rn * (t / a)\<bar> \<le> t"
proof -
  have "\<bar>rn * (t / a)\<bar> = \<bar>rn\<bar> * t / a" using assms by (simp add: abs_mult)
  also have "\<dots> \<le> a * t / a" using assms by (intro divide_right_mono mult_right_mono) auto
  also have "\<dots> = t" using assms by simp
  finally show ?thesis .
qed

lemma remainder_bound:
  fixes a rn t :: real
  assumes "0 < a" "0 \<le> t" "t \<le> a"
  shows "\<bar>rn - rn * (t / a)\<bar> \<le> \<bar>rn\<bar>"
proof -
  have "rn - rn * (t / a) = rn * (1 - t / a)" by (simp add: algebra_simps)
  moreover have "0 \<le> 1 - t / a" "1 - t / a \<le> 1" using assms by auto
  ultimately show ?thesis
    by (metis abs_mult abs_of_nonneg mult.right_neutral mult_left_mono abs_ge_zero)
qed

lemma fill_step_open_ok:
  assumes B: "0 < B" and ok: "open_ok B st" and r: "0 < r" "r \<le> a" and rn: "\<bar>rn\<bar> \<le> a"
    and fs: "fill_step B idx ts a r rn st = (r1, rn1, st1)"
  shows "open_ok B st1 \<and> 0 \<le> r1 \<and> r1 \<le> a \<and> \<bar>rn1\<bar> \<le> a"
proof -
  define t where "t = min r (B - current_bucket_abs_volume st)"
  have t: "0 < t" "t \<le> r" "t \<le> B - current_bucket_abs_volume st"
    using ok r by (auto simp: t_def open_ok_def)
  have a: "0 < a" using r by linarith
  have na: "\<bar>rn * (t / a)\<bar> \<le> t" using fragment_bound[OF a rn] t by simp
  have r1: "r1 = r - t" and rn1: "rn1 = rn - rn * (t / a)"
    using fs by (auto simp: fill_step_def Let_def t_def)
  have "\<bar>rn1\<bar> \<le> \<bar>rn\<bar>" unfolding rn1 using remainder_bound[OF a, of t rn] t r by simp
  then have b1: "0 \<le> r1 \<and> r1 \<le> a \<and> \<bar>rn1\<bar> \<le> a" using r1 t r rn by linarith
  have net: "\<bar>current_bucket_net_volume st + rn * (t / a)\<bar> \<le> current_bucket_abs_volume st + t"
    using na ok abs_triangle_ineq[of "current_bucket_net_volume st" "rn * (t / a)"]
    unfolding open_ok_def by linarith
  have "open_ok B st1"
  proof (cases "current_bucket_abs_volume st + t \<ge> B")
    case True
    then have eq: "current_bucket_abs_volume st + t = B" using t by linarith
    from fs True have st1: "st1 = reset_bucket (emit_bucket B idx ts (idx - int (length (bucket_details st)))
        (st\<lparr>current_bucket_abs_volume := B,
            current_bucket_net_volume := current_bucket_net_volume st + rn * (t / a)\<rparr>))"
      using eq by (simp add: fill_step_def Let_def t_def[symmetric])
    have "\<bar>current_bucket_net_volume st + rn * (t / a)\<bar> / B \<le> 1"
      using net eq B by simp
    then have le1: "\<bar>current_bucket_net_volume st + rn * (t / a)\<bar> / B \<le> 1" .
    have "\<exists>b. bucket_details st1 = bucket_details st @ [b] \<and> bucket_abs_volume b = B
        \<and> order_imbalance b = \<bar>bucket_net_volume b\<bar> / B
        \<and> bucket_net_volume b = current_bucket_net_volume st + rn * (t / a)"
      by (simp add: st1 reset_bucket_def emit_bucket_def Let_def)
    then obtain b where b: "bucket_details st1 = bucket_details st @ [b]" "bucket_abs_volume b = B"
        "order_imbalance b = \<bar>bucket_net_volume b\<bar> / B"
        "bucket_net_volume b = current_bucket_net_volume st + rn * (t / a)" by blast
    have "closed_at B b" using b le1 B by (simp add: closed_at_def)
    moreover have "current_bucket_abs_volume st1 = 0" "current_bucket_net_volume st1 = 0"
      by (simp_all add: st1 reset_bucket_def emit_bucket_def Let_def)
    ultimately show ?thesis using ok B b(1) by (simp add: open_ok_def)
  next
    case False
    with fs have st1: "st1 = st\<lparr>current_bucket_abs_volume := current_bucket_abs_volume st + t,
            current_bucket_net_volume := current_bucket_net_volume st + rn * (t / a)\<rparr>"
      by (simp add: fill_step_def Let_def t_def[symmetric])
    show ?thesis using ok False net t by (simp add: st1 open_ok_def)
  qed
  with b1 show ?thesis by simp
qed

lemma fill_buckets_open_ok:
  assumes B: "0 < B" and ok: "open_ok B st"
    and run: "fill_buckets B idx ts \<bar>tv\<bar> \<bar>tv\<bar> tv st = Some st'"
  shows "open_ok B st'"
proof -
  let ?K = "\<lambda>r rn st. open_ok B st \<and> 0 \<le> r \<and> r \<le> \<bar>tv\<bar> \<and> \<bar>rn\<bar> \<le> \<bar>tv\<bar>"
  have init: "?K \<bar>tv\<bar> tv st" using ok by simp
  have step: "case fill_step B idx ts \<bar>tv\<bar> r rn st of (r', rn', st2) \<Rightarrow> ?K r' rn' st2"
    if "?K r rn st" "0 < r" for r rn st
  proof -
    obtain r1 rn1 st1 where fs: "fill_step B idx ts \<bar>tv\<bar> r rn st = (r1, rn1, st1)"
      by (cases "fill_step B idx ts \<bar>tv\<bar> r rn st") auto
    from fill_step_open_ok[OF B _ that(2) _ _ fs] that(1) show ?thesis by (simp add: fs)
  qed
  from fill_buckets_rule[of B idx ts "\<bar>tv\<bar>" "\<bar>tv\<bar>" tv st st' ?K, OF run init step]
  show ?thesis by blast
qed

subsection \<open>The buckets of a run\<close>

lemma bucket_size_of_Nil: "bucket_size_of [] = NaN"
  by (simp add: bucket_size_of_def daily_volume_def np_mean_def)


lemma process_trades_diverges:
  assumes "B \<le> 0" and "tradevolume row \<noteq> 0"
  shows "process_trades B idx (row # rows) initial_state = None"
proof -
  have "fill_buckets B idx (timestamp row) \<bar>tradevolume row\<bar> \<bar>tradevolume row\<bar> (tradevolume row) initial_state = None"
    using assms by (intro fill_buckets_diverges) (simp_all add: initial_state_def)
  then show ?thesis by (simp add: Let_def)
qed

lemma open_ok_initial: "0 < B \<Longrightarrow> open_ok B initial_state"
  by (simp add: open_ok_def initial_state_def)

lemma process_trades_open_ok:
  assumes "0 < B" "process_trades B idx rows st = Some st'" "open_ok B st"
  shows "open_ok B st'"
  by (rule process_trades_rule[where I = "open_ok B", OF _ assms(2,3)])
     (rule fill_buckets_open_ok[OF assms(1)])

lemma final_bucket_details:
  "bucket_details (final_bucket B df st) = bucket_details st \<or>
   (\<exists>b. bucket_details (final_bucket B df st) = bucket_details st @ [b]
        \<and> bucket_abs_volume b = current_bucket_abs_volume st
        \<and> order_imbalance b = \<bar>current_bucket_net_volume st\<bar> / B
        \<and> 0 < current_bucket_abs_volume st)"
  by (simp add: final_bucket_def emit_bucket_def Let_def)

subsection \<open>The rolling windows\<close>

lemma push_imbalance_window:
  "push_imbalance n x (window n xs) = window n (xs @ [x])"
proof (cases "length xs < n")
  case True
  then show ?thesis by (simp add: push_imbalance_def window_def Let_def)
next
  case False
  then have le: "n \<le> length xs" by simp
  show ?thesis
  proof (cases "n = 0")
    case True
    then show ?thesis by (simp add: push_imbalance_def window_def Let_def)
  next
    case False
    with le have "length xs - n < length xs" by simp
    then have "tl (drop (length xs - n) xs @ [x]) = drop (Suc (length xs - n)) xs @ [x]"
      by (simp add: tl_append2 tl_drop drop_Suc)
    moreover have "Suc (length xs) - n = Suc (length xs - n)" using le by simp
    ultimately show ?thesis using le False
      by (simp add: push_imbalance_def window_def Let_def)
  qed
qed

lemma np_mean_window:
  "0 < n \<Longrightarrow> np_mean (window n (xs @ [x])) = Fin (mean (window n (xs @ [x])))"
  by (simp add: np_mean_def mean_def window_def)

lemma reports_snoc:
  assumes "reports n col bs" and "col b = Fin (mean (window n (map order_imbalance (bs @ [b]))))"
  shows "reports n col (bs @ [b])"
  unfolding reports_def
proof (intro allI impI)
  fix k assume "k < length (bs @ [b])"
  then consider "k < length bs" | "k = length bs" by fastforce
  then show "col ((bs @ [b]) ! k) = Fin (mean (window n (take (Suc k) (map order_imbalance (bs @ [b])))))"
  proof cases
    case 1
    with assms(1) show ?thesis by (simp add: reports_def nth_append)
  next
    case 2
    with assms(2) show ?thesis by simp
  qed
qed

lemma emit_bucket_windows_ok:
  assumes "windows_ok st"
  shows "windows_ok (emit_bucket B tidx ts start st)"
proof -
  let ?st' = "emit_bucket B tidx ts start st"
  let ?oi = "\<bar>current_bucket_net_volume st\<bar> / B"
  let ?ois = "map order_imbalance (bucket_details st)"
  obtain b where b: "bucket_details ?st' = bucket_details st @ [b]" "order_imbalance b = ?oi"
    "vpin_daily b = np_mean (push_imbalance 50 ?oi (imbalances_daily st))"
    "vpin_5day b = np_mean (push_imbalance 250 ?oi (imbalances_5day st))"
    "vpin_7day b = np_mean (push_imbalance 350 ?oi (imbalances_7day st))"
    by (simp add: emit_bucket_def Let_def)
  have q: "imbalances_daily ?st' = push_imbalance 50 ?oi (imbalances_daily st)"
    "imbalances_5day ?st' = push_imbalance 250 ?oi (imbalances_5day st)"
    "imbalances_7day ?st' = push_imbalance 350 ?oi (imbalances_7day st)"
    by (simp_all add: emit_bucket_def Let_def)
  have ois: "map order_imbalance (bucket_details ?st') = ?ois @ [?oi]" using b by simp
  from assms have w: "imbalances_daily st = window 50 ?ois" "imbalances_5day st = window 250 ?ois"
    "imbalances_7day st = window 350 ?ois" and r: "reports 50 vpin_daily (bucket_details st)"
    "reports 250 vpin_5day (bucket_details st)" "reports 350 vpin_7day (bucket_details st)"
    by (simp_all add: windows_ok_def)
  have d: "imbalances_daily ?st' = window 50 (?ois @ [?oi])"
    and f: "imbalances_5day ?st' = window 250 (?ois @ [?oi])"
    and s: "imbalances_7day ?st' = window 350 (?ois @ [?oi])"
    by (simp_all only: q w push_imbalance_window)
  have "reports 50 vpin_daily (bucket_details st @ [b])"
    by (rule reports_snoc[OF r(1)]) (simp add: b w push_imbalance_window np_mean_window)
  moreover have "reports 250 vpin_5day (bucket_details st @ [b])"
    by (rule reports_snoc[OF r(2)]) (simp add: b w push_imbalance_window np_mean_window)
  moreover have "reports 350 vpin_7day (bucket_details st @ [b])"
    by (rule reports_snoc[OF r(3)]) (simp add: b w push_imbalance_window np_mean_window)
  ultimately show ?thesis unfolding windows_ok_def ois d f s b(1) by (simp add: b(2))
qed

lemma fill_buckets_windows_ok:
  assumes ok: "windows_ok st" and run: "fill_buckets B idx ts a r rn st = Some st'"
  shows "windows_ok st'"
proof -
  let ?K = "\<lambda>(r::real) (rn::real) st. windows_ok st"
  have step: "case fill_step B idx ts a r rn st of (r', rn', st2) \<Rightarrow> ?K r' rn' st2"
    if "?K r rn st" "0 < r" for r rn st
  proof -
    have "windows_ok (st\<lparr>current_bucket_abs_volume := x, current_bucket_net_volume := y\<rparr>)" for x y
      using that(1) by (simp add: windows_ok_def)
    from emit_bucket_windows_ok[OF this] this show ?thesis
      by (simp add: fill_step_def Let_def reset_bucket_def windows_ok_def)
  qed
  from fill_buckets_rule[of B idx ts a r rn st st' ?K, OF run ok step] show ?thesis by blast
qed

lemma bucket_pass_windows_ok:
  assumes "bucket_pass B df = Some st"
  shows "windows_ok st"
proof -
  from assms obtain st0 where p: "process_trades B 0 df initial_state = Some st0"
    and st: "st = final_bucket B df st0"
    by (auto simp: bucket_pass_def split: option.splits)
  have "windows_ok initial_state"
    by (simp add: windows_ok_def initial_state_def window_def reports_def)
  from process_trades_rule[where I = windows_ok, OF _ p this] have "windows_ok st0"
    using fill_buckets_windows_ok by blast
  then show ?thesis unfolding st final_bucket_def by (simp add: emit_bucket_windows_ok)
qed


subsection \<open>Termination and the buckets of a run\<close>

lemma fill_buckets_returns:
  assumes "0 < B" and "open_ok B st"
  shows "\<exists>st'. fill_buckets B idx ts a r rn st = Some st'"
proof -
  obtain k :: nat where "current_bucket_abs_volume st + r < real k * B"
    using reals_Archimedean3[OF assms(1)] by blast
  with fill_buckets_terminates[OF assms(1), of st r k] assms(2) show ?thesis
    by (simp add: open_ok_def)
qed

lemma process_trades_returns:
  assumes "0 < B"
  shows "open_ok B st \<Longrightarrow> \<exists>st'. process_trades B idx rows st = Some st'"
proof (induction rows arbitrary: idx st)
  case Nil
  then show ?case by simp
next
  case (Cons row rows)
  from fill_buckets_returns[OF assms Cons.prems] obtain st1 where
    f: "fill_buckets B idx (timestamp row) \<bar>tradevolume row\<bar> \<bar>tradevolume row\<bar> (tradevolume row) st = Some st1"
    by blast
  from fill_buckets_open_ok[OF assms Cons.prems f] have "open_ok B st1" .
  from Cons.IH[OF this] f show ?case by (simp add: Let_def)
qed

text \<open>After a pass of the loop a bucket has been emitted or the open one is not empty.\<close>

lemma fill_step_progress:
  assumes "open_ok B st" and "0 < r"
    and fs: "fill_step B idx ts a r rn st = (r1, rn1, st1)"
  shows "r1 < r \<and> (bucket_details st1 \<noteq> [] \<or> 0 < current_bucket_abs_volume st1)"
proof -
  define t where "t = min r (B - current_bucket_abs_volume st)"
  have t: "0 < t" using assms by (auto simp: t_def open_ok_def)
  have "r1 = r - t" using fs by (auto simp: fill_step_def Let_def t_def)
  moreover have "bucket_details st1 \<noteq> [] \<or> 0 < current_bucket_abs_volume st1"
    using fs t assms(1)
    by (auto simp: fill_step_def Let_def t_def[symmetric] reset_bucket_def emit_bucket_def open_ok_def
        split: if_splits)
  ultimately show ?thesis using t by simp
qed

lemma fill_buckets_started:
  assumes B: "0 < B" and ok: "open_ok B st" and tv: "tv \<noteq> 0 \<or> started B st"
    and run: "fill_buckets B idx ts \<bar>tv\<bar> \<bar>tv\<bar> tv st = Some st'"
  shows "started B st'"
proof -
  let ?K = "\<lambda>r rn st. open_ok B st \<and> 0 \<le> r \<and> r \<le> \<bar>tv\<bar> \<and> \<bar>rn\<bar> \<le> \<bar>tv\<bar>
      \<and> (r < \<bar>tv\<bar> \<or> tv = 0 \<longrightarrow> started B st)"
  have init: "?K \<bar>tv\<bar> tv st" using ok tv by auto
  have step: "case fill_step B idx ts \<bar>tv\<bar> r rn st of (r', rn', st2) \<Rightarrow> ?K r' rn' st2"
    if K: "?K r rn st" and r: "0 < r" for r rn st
  proof -
    obtain r1 rn1 st1 where fs: "fill_step B idx ts \<bar>tv\<bar> r rn st = (r1, rn1, st1)"
      by (cases "fill_step B idx ts \<bar>tv\<bar> r rn st") auto
    from K have ok: "open_ok B st" and b: "r \<le> \<bar>tv\<bar>" "\<bar>rn\<bar> \<le> \<bar>tv\<bar>" by simp_all
    from fill_step_open_ok[OF B ok r b fs] fill_step_progress[OF ok r fs]
    show ?thesis by (simp add: fs started_def)
  qed
  from fill_buckets_rule[of B idx ts "\<bar>tv\<bar>" "\<bar>tv\<bar>" tv st st' ?K, OF run init step]
  obtain r' where "started B st' \<or> \<not> (r' < \<bar>tv\<bar> \<or> tv = 0)" "\<not> 0 < r'" by blast
  then show ?thesis by (cases "tv = 0") auto
qed

lemma process_trades_started:
  assumes B: "0 < B" and rows: "rows \<noteq> []" "\<forall>r \<in> set rows. tradevolume r \<noteq> 0"
    and run: "process_trades B idx rows initial_state = Some st'"
  shows "started B st'"
proof -
  from rows(1) obtain row rest where rr: "rows = row # rest" by (cases rows) auto
  with run obtain st1 where
    f: "fill_buckets B idx (timestamp row) \<bar>tradevolume row\<bar> \<bar>tradevolume row\<bar> (tradevolume row) initial_state = Some st1"
    and p: "process_trades B (idx + 1) rest st1 = Some st'"
    by (auto simp: Let_def split: option.splits)
  from rows(2) rr have "tradevolume row \<noteq> 0" by simp
  from fill_buckets_started[OF B open_ok_initial[OF B] _ f] this have s1: "started B st1" by simp
  show ?thesis
  proof (rule process_trades_rule[where I = "started B", OF _ p s1])
    fix idx and row :: trade_row and st st'
    assume "started B st"
      and "fill_buckets B idx (timestamp row) \<bar>tradevolume row\<bar> \<bar>tradevolume row\<bar> (tradevolume row) st = Some st'"
    then show "started B st'"
      using fill_buckets_started[OF B, of st "tradevolume row" idx "timestamp row" st']
      by (simp add: started_def)
  qed
qed

lemma final_bucket_started:
  "started B st \<Longrightarrow> bucket_details (final_bucket B df st) \<noteq> []"
  by (auto simp: started_def final_bucket_def emit_bucket_def Let_def)

text \<open>The runs that return a bucket table are those with a positive bucket size.\<close>

lemma run_buckets_positive:
  assumes "bucket_size_of (traded rows) = Fin B" and "0 < B"
  obtains st0 where
    "process_trades B 0 (traded rows) initial_state = Some st0"
    "open_ok B st0"
    "run_buckets rows = Some (final_bucket B (traded rows) st0)"
    "bucket_details (final_bucket B (traded rows) st0) \<noteq> []"
proof -
  let ?df = "traded rows"
  from process_trades_returns[OF assms(2) open_ok_initial[OF assms(2)]]
  obtain st0 where p: "process_trades B 0 ?df initial_state = Some st0" by blast
  have ok: "open_ok B st0" using process_trades_open_ok[OF assms(2) p open_ok_initial[OF assms(2)]] .
  have ne: "?df \<noteq> []" using assms(1) bucket_size_of_Nil by auto
  have "started B st0" by (rule process_trades_started[OF assms(2) ne _ p]) simp
  then have "bucket_details (final_bucket B ?df st0) \<noteq> []" by (rule final_bucket_started)
  moreover have "run_buckets rows = Some (final_bucket B ?df st0)"
    using assms(1) p by (simp add: run_buckets_def Let_def bucket_pass_def)
  ultimately show thesis using that p ok by blast
qed

text \<open>
  Without rounding, every bucket of a run except at most the last one is closed at the
  threshold.  This is a statement about the numbers of this model, the reals.  The program
  rounds each of the operations of a pass (lines 61 to 79) to a double, and the equality
  of the absolute volume with the bucket size and the bound 1 on the imbalance are of the
  size of one such rounding: they do not carry over to the doubles of the program.
\<close>

lemma unrounded_buckets_closed:
  assumes "bucket_size_of (traded rows) = Fin B" and "0 < B"
  shows "\<exists>bs. calculate_vpin rows = Some (Inr bs)
           \<and> (\<forall>i. Suc i < length bs \<longrightarrow> closed_at B (bs ! i))"
proof -
  let ?df = "traded rows"
  from assms obtain st0 where ok: "open_ok B st0"
    and run: "run_buckets rows = Some (final_bucket B ?df st0)"
    and ne: "bucket_details (final_bucket B ?df st0) \<noteq> []"
    by (auto elim: run_buckets_positive)
  let ?bs = "bucket_details (final_bucket B ?df st0)"
  have "closed_at B (?bs ! i)" if "Suc i < length ?bs" for i
  proof -
    have "?bs ! i \<in> set (bucket_details st0)"
      using final_bucket_details[of B ?df st0] that by (auto simp: nth_append)
    with ok show ?thesis by (simp add: open_ok_def)
  qed
  moreover have "calculate_vpin rows = Some (Inr ?bs)"
    using run ne by (simp add: calculate_vpin_def)
  ultimately show ?thesis by blast
qed

text \<open>
  C8: when the bucket size is a positive number the run returns, and after its last
  bucket each of the three windows holds at most 50, 250 and 350 imbalances, namely
  the most recent ones (the oldest went first); at every bucket, from the first one on,
  each of the three columns reports a number, the arithmetic mean of the window as it
  was after that bucket.
\<close>

theorem rolling_windows:
  assumes "bucket_size_of (traded rows) = Fin B" and "0 < B"
  shows "\<exists>st. run_buckets rows = Some st \<and> calculate_vpin rows = Some (Inr (bucket_details st))
       \<and> length (imbalances_daily st) \<le> 50 \<and> length (imbalances_5day st) \<le> 250
       \<and> length (imbalances_7day st) \<le> 350
       \<and> imbalances_daily st = window 50 (map order_imbalance (bucket_details st))
       \<and> imbalances_5day st = window 250 (map order_imbalance (bucket_details st))
       \<and> imbalances_7day st = window 350 (map order_imbalance (bucket_details st))
       \<and> reports 50 vpin_daily (bucket_details st)
       \<and> reports 250 vpin_5day (bucket_details st)
       \<and> reports 350 vpin_7day (bucket_details st)"
proof -
  let ?df = "traded rows"
  from assms obtain st where run: "run_buckets rows = Some st" and ne: "bucket_details st \<noteq> []"
    by (auto elim: run_buckets_positive)
  from run assms(1) have "bucket_pass B ?df = Some st" by (simp add: run_buckets_def Let_def)
  then have "windows_ok st" by (rule bucket_pass_windows_ok)
  moreover have "length (window n xs) \<le> n" for n and xs :: "real list"
    by (simp add: window_def)
  moreover have "calculate_vpin rows = Some (Inr (bucket_details st))"
    using run ne by (simp add: calculate_vpin_def)
  ultimately show ?thesis using run by (simp add: windows_ok_def)
qed

subsection \<open>Runs that fail\<close>





section \<open>Properties of the fee estimator\<close>

subsection \<open>One row\<close>

lemma fee_step_zero_eq:
  assumes "tradevolume row = 0"
  shows "fee_step pp tss vs base st row =
    (case inventory_exposure_local st of
       None \<Rightarrow> Inl UnboundLocalError
     | Some ie \<Rightarrow>
         (let mv = move_vpin_index tss vs (timestamp row) (vpin_idx st) (latest_vpin st)
          in Inr (\<lparr>vpin_idx = fst mv, latest_vpin = snd mv,
                   latest_illiq = (case current_illiq_of row of Some v \<Rightarrow> Some v | None \<Rightarrow> latest_illiq st),
                   inventory_exposure_local = Some ie\<rparr>,
                  \<lparr>out_timestamp = timestamp row, out_price = price row,
                   trade_volume = 0, abs_trade_volume = 0,
                   out_ILLIQ = current_illiq_of row, vpin_used = snd mv,
                   estimated_price_impact = Fin 0, expected_impermanent_loss = Fin 0,
                   base_fee = 0,
                   vpin_fee_pct_of_volume = (case snd mv of Some v \<Rightarrow> fmul (Fin 0) v | None \<Rightarrow> Fin 0),
                   vpin_fee_absolute = Fin 0, total_fee = Fin 0, fee_pct_of_volume = Fin 0,
                   out_inventory_exposure = ie\<rparr>)))"
  using assms by (cases "inventory_exposure_local st") (simp_all add: fee_step_def Let_def split_beta)


lemma fee_step_traded_eq:
  assumes "tradevolume row \<noteq> 0"
  shows "fee_step pp tss vs base st row =
    (case calculate_token_amounts_at_price (price row) pp of
       Inl e \<Rightarrow> Inl e
     | Inr ps \<Rightarrow>
         (let mv = move_vpin_index tss vs (timestamp row) (vpin_idx st) (latest_vpin st);
              a = \<bar>tradevolume row\<bar>;
              epi = (case latest_illiq st of Some v \<Rightarrow> fdiv (fmul v (Fin a)) 1000000 | None \<Rightarrow> Fin 0);
              eil = fmul epi (Fin (inventory_exposure ps));
              vfp = (case snd mv of Some v \<Rightarrow> fmul eil v | None \<Rightarrow> Fin 0);
              tf = fadd (Fin (base / 100 * a)) (fmul vfp (Fin a))
          in Inr (\<lparr>vpin_idx = fst mv, latest_vpin = snd mv,
                   latest_illiq = (case current_illiq_of row of Some v \<Rightarrow> Some v | None \<Rightarrow> latest_illiq st),
                   inventory_exposure_local = Some (inventory_exposure ps)\<rparr>,
                  \<lparr>out_timestamp = timestamp row, out_price = price row,
                   trade_volume = tradevolume row, abs_trade_volume = a,
                   out_ILLIQ = current_illiq_of row, vpin_used = snd mv,
                   estimated_price_impact = epi, expected_impermanent_loss = eil,
                   base_fee = base / 100 * a,
                   vpin_fee_pct_of_volume = vfp,
                   vpin_fee_absolute = fmul vfp (Fin a), total_fee = tf, fee_pct_of_volume = fdiv tf a,
                   out_inventory_exposure = inventory_exposure ps\<rparr>)))"
proof -
  have pos: "0 < \<bar>tradevolume row\<bar>" using assms by simp
  show ?thesis
  proof (cases "calculate_token_amounts_at_price (price row) pp")
    case (Inl e)
    show ?thesis unfolding fee_step_def Let_def split_beta Inl if_P[OF pos] by simp
  next
    case (Inr ps)
    show ?thesis
    proof (cases "latest_illiq st")
      case None
      show ?thesis unfolding fee_step_def Let_def split_beta Inr None if_P[OF pos]
        by (simp only: sum.case option.case prod.case fst_conv snd_conv fmul.simps mult_zero_left)
    next
      case (Some v)
      show ?thesis unfolding fee_step_def Let_def split_beta Inr Some if_P[OF pos]
        by (simp only: sum.case option.case prod.case fst_conv snd_conv)
    qed
  qed
qed


lemma fee_step_state:
  assumes "fee_step pp tss vs base st row = Inr (st', out)"
  shows "vpin_idx st' = fst (move_vpin_index tss vs (timestamp row) (vpin_idx st) (latest_vpin st))"
    and "latest_vpin st' = snd (move_vpin_index tss vs (timestamp row) (vpin_idx st) (latest_vpin st))"
    and "vpin_used out = latest_vpin st'"
    and "latest_illiq st' = (case current_illiq_of row of Some v \<Rightarrow> Some v | None \<Rightarrow> latest_illiq st)"
    and "out_ILLIQ out = current_illiq_of row"
    and "inventory_exposure_local st' = Some (out_inventory_exposure out)"
proof -
  have "vpin_idx st' = fst (move_vpin_index tss vs (timestamp row) (vpin_idx st) (latest_vpin st))
    \<and> latest_vpin st' = snd (move_vpin_index tss vs (timestamp row) (vpin_idx st) (latest_vpin st))
    \<and> vpin_used out = latest_vpin st'
    \<and> latest_illiq st' = (case current_illiq_of row of Some v \<Rightarrow> Some v | None \<Rightarrow> latest_illiq st)
    \<and> out_ILLIQ out = current_illiq_of row
    \<and> inventory_exposure_local st' = Some (out_inventory_exposure out)"
  proof (cases "tradevolume row = 0")
    case True
    from assms show ?thesis unfolding fee_step_zero_eq[OF True] Let_def
      by (cases "inventory_exposure_local st") auto
  next
    case False
    from assms show ?thesis unfolding fee_step_traded_eq[OF False] Let_def
      by (cases "calculate_token_amounts_at_price (price row) pp") auto
  qed
  then show "vpin_idx st' = fst (move_vpin_index tss vs (timestamp row) (vpin_idx st) (latest_vpin st))"
    and "latest_vpin st' = snd (move_vpin_index tss vs (timestamp row) (vpin_idx st) (latest_vpin st))"
    and "vpin_used out = latest_vpin st'"
    and "latest_illiq st' = (case current_illiq_of row of Some v \<Rightarrow> Some v | None \<Rightarrow> latest_illiq st)"
    and "out_ILLIQ out = current_illiq_of row"
    and "inventory_exposure_local st' = Some (out_inventory_exposure out)"
    by simp_all
qed

lemma fee_step_fees:
  assumes "fee_step pp tss vs base st row = Inr (st', out)"
  shows "abs_trade_volume out = \<bar>tradevolume row\<bar>
    \<and> base_fee out = (if tradevolume row = 0 then 0 else base / 100 * \<bar>tradevolume row\<bar>)
    \<and> vpin_fee_pct_of_volume out =
           (case vpin_used out of Some v \<Rightarrow> fmul (expected_impermanent_loss out) v | None \<Rightarrow> Fin 0)
    \<and> vpin_fee_absolute out =
           (if tradevolume row = 0 then Fin 0 else fmul (vpin_fee_pct_of_volume out) (Fin \<bar>tradevolume row\<bar>))
    \<and> total_fee out = fadd (Fin (base_fee out)) (vpin_fee_absolute out)
    \<and> fee_pct_of_volume out =
           (if tradevolume row = 0 then Fin 0 else fdiv (total_fee out) \<bar>tradevolume row\<bar>)"
proof (cases "tradevolume row = 0")
  case True
  from assms show ?thesis unfolding fee_step_zero_eq[OF True] Let_def
    by (cases "inventory_exposure_local st") (auto simp: True split: option.split)
next
  case False
  from assms show ?thesis unfolding fee_step_traded_eq[OF False] Let_def
    by (cases "calculate_token_amounts_at_price (price row) pp") (auto simp: False split: option.split)
qed

lemma fee_step_zero:
  assumes "fee_step pp tss vs base st row = Inr (st', out)" and "tradevolume row = 0"
  shows "estimated_price_impact out = Fin 0 \<and> expected_impermanent_loss out = Fin 0
    \<and> inventory_exposure_local st = Some (out_inventory_exposure out)"
  using assms(1) unfolding fee_step_zero_eq[OF assms(2)] Let_def
  by (cases "inventory_exposure_local st") auto

lemma fee_step_traded:
  assumes "fee_step pp tss vs base st row = Inr (st', out)" and "tradevolume row \<noteq> 0"
  shows "\<exists>ps. calculate_token_amounts_at_price (price row) pp = Inr ps
           \<and> out_inventory_exposure out = inventory_exposure ps
           \<and> estimated_price_impact out =
                (case latest_illiq st of
                   Some v \<Rightarrow> fdiv (fmul v (Fin \<bar>tradevolume row\<bar>)) 1000000
                 | None \<Rightarrow> Fin 0)
           \<and> expected_impermanent_loss out = fmul (estimated_price_impact out) (Fin (inventory_exposure ps))"
  using assms(1) unfolding fee_step_traded_eq[OF assms(2)] Let_def
  by (cases "calculate_token_amounts_at_price (price row) pp") auto

lemma fee_step_unbound:
  assumes "tradevolume row = 0" and "inventory_exposure_local st = None"
  shows "fee_step pp tss vs base st row = Inl UnboundLocalError"
  by (simp add: fee_step_zero_eq[OF assms(1)] assms(2))


subsection \<open>The loop over the rows\<close>

lemma fee_loop_length:
  "fee_loop pp tss vs base st rows = Inr (st', outs) \<Longrightarrow> length outs = length rows"
  by (induction rows arbitrary: st outs) (auto split: sum.splits prod.splits)

text \<open>
  A run that returns has gone through every row: the loop on the rows before row \<open>i\<close>
  returns the first \<open>i\<close> entries, and the body on row \<open>i\<close> gives the next one.
\<close>

lemma fee_loop_nth:
  assumes "fee_loop pp tss vs base st rows = Inr (stf, outs)" and "i < length rows"
  shows "\<exists>sti sti'. fee_loop pp tss vs base st (take i rows) = Inr (sti, take i outs)
           \<and> fee_step pp tss vs base sti (rows ! i) = Inr (sti', outs ! i)
           \<and> fee_loop pp tss vs base st (take (Suc i) rows) = Inr (sti', take (Suc i) outs)"
  using assms
proof (induction rows arbitrary: st outs i)
  case Nil
  then show ?case by simp
next
  case (Cons row rows)
  from Cons.prems(1) obtain st1 out1 outs1 where
    s: "fee_step pp tss vs base st row = Inr (st1, out1)"
    and l: "fee_loop pp tss vs base st1 rows = Inr (stf, outs1)"
    and o: "outs = out1 # outs1"
    by (auto split: sum.splits prod.splits)
  show ?case
  proof (cases i)
    case 0
    with s o show ?thesis by simp
  next
    case (Suc j)
    with Cons.prems(2) have "j < length rows" by simp
    from Cons.IH[OF l this] obtain sti sti' where
      "fee_loop pp tss vs base st1 (take j rows) = Inr (sti, take j outs1)"
      "fee_step pp tss vs base sti (rows ! j) = Inr (sti', outs1 ! j)"
      "fee_loop pp tss vs base st1 (take (Suc j) rows) = Inr (sti', take (Suc j) outs1)"
      by blast
    with s o Suc show ?thesis by simp
  qed
qed

subsection \<open>The impact cache\<close>

lemma current_illiq_of_valid:
  "current_illiq_of row = (if valid_impact (ILLIQ row) then Some (ILLIQ row) else None)"
  by (cases "ILLIQ row") (simp_all add: current_illiq_of_def valid_impact_def)

lemma latest_valid_impact_last:
  "latest_valid_impact rows =
     (if filter valid_impact (map ILLIQ rows) = [] then None
      else Some (last (filter valid_impact (map ILLIQ rows))))"
  by (cases "filter valid_impact (map ILLIQ rows)") (simp_all add: latest_valid_impact_def)

lemma latest_valid_impact_snoc:
  "latest_valid_impact (rows @ [row]) =
     (if valid_impact (ILLIQ row) then Some (ILLIQ row) else latest_valid_impact rows)"
  by (simp add: latest_valid_impact_last)

lemma fee_loop_latest_illiq:
  assumes "fee_loop pp tss vs base st rows = Inr (st', outs)" and "latest_illiq st = None"
  shows "latest_illiq st' = latest_valid_impact rows"
  using assms(1)
proof (induction rows arbitrary: st' outs rule: rev_induct)
  case Nil
  with assms(2) show ?case by (simp add: latest_valid_impact_def)
next
  case (snoc row rows)
  have n: "length rows < length (rows @ [row])" by simp
  from fee_loop_nth[OF snoc.prems n] obtain sti sti' where
    a: "fee_loop pp tss vs base st rows = Inr (sti, take (length rows) outs)"
    and b: "fee_step pp tss vs base sti row = Inr (sti', outs ! length rows)"
    and c: "fee_loop pp tss vs base st (rows @ [row]) = Inr (sti', take (Suc (length rows)) outs)"
    by auto
  from c snoc.prems have "sti' = st'" by simp
  moreover from snoc.IH[OF a] have "latest_illiq sti = latest_valid_impact rows" .
  ultimately show ?case
    using fee_step_state(4)[OF b]
    by (simp add: latest_valid_impact_snoc current_illiq_of_valid)
qed


subsection \<open>The toxicity cursor\<close>

lemma move_vpin_index_stop:
  assumes "\<not> (idx + 1 < length tss \<and> tss ! (idx + 1) \<le> t)"
  shows "move_vpin_index tss vs t idx latest = (idx, latest)"
  by (subst move_vpin_index.simps) (simp only: if_not_P[OF assms])

lemma move_vpin_index_go:
  "idx + 1 < length tss \<and> tss ! (idx + 1) \<le> t \<Longrightarrow>
   move_vpin_index tss vs t idx latest = move_vpin_index tss vs t (idx + 1) (Some (vs ! (idx + 1)))"
  by (subst move_vpin_index.simps) simp

lemma move_vpin_index_lt:
  "idx < length tss \<Longrightarrow> fst (move_vpin_index tss vs t idx latest) < length tss"
proof (induction tss vs t idx latest rule: move_vpin_index.induct)
  case (1 tss vs t idx latest)
  show ?case
  proof (cases "idx + 1 < length tss \<and> tss ! (idx + 1) \<le> t")
    case True
    with 1 show ?thesis by (simp add: move_vpin_index_go[OF True])
  next
    case False
    with 1 show ?thesis by (simp add: move_vpin_index_stop[OF False])
  qed
qed

lemma move_vpin_index_latest:
  "latest = Some (vs ! idx) \<Longrightarrow>
   snd (move_vpin_index tss vs t idx latest) = Some (vs ! fst (move_vpin_index tss vs t idx latest))"
proof (induction tss vs t idx latest rule: move_vpin_index.induct)
  case (1 tss vs t idx latest)
  show ?case
  proof (cases "idx + 1 < length tss \<and> tss ! (idx + 1) \<le> t")
    case True
    with 1 show ?thesis by (simp add: move_vpin_index_go[OF True])
  next
    case False
    with 1 show ?thesis by (simp add: move_vpin_index_stop[OF False])
  qed
qed

lemma move_vpin_index_empty: "move_vpin_index [] vs t idx latest = (idx, latest)"
  by (rule move_vpin_index_stop) simp

text \<open>In a sorted series the values up to \<open>t\<close> are a prefix.\<close>

lemma sorted_count_gt:
  assumes "sorted (tss :: int list)" and "i < length tss" and "tss ! i \<le> t"
  shows "i < length (filter (\<lambda>x. x \<le> t) tss)"
proof -
  have "\<forall>x \<in> set (take (Suc i) tss). x \<le> t"
  proof
    fix x assume "x \<in> set (take (Suc i) tss)"
    then obtain j where "j < Suc i" "x = tss ! j" using assms(2)
      by (auto simp: in_set_conv_nth)
    with assms show "x \<le> t" by (metis less_Suc_eq_le order_trans sorted_nth_mono)
  qed
  then have "filter (\<lambda>x. x \<le> t) (take (Suc i) tss) = take (Suc i) tss" by simp
  moreover have "filter (\<lambda>x. x \<le> t) tss =
      filter (\<lambda>x. x \<le> t) (take (Suc i) tss) @ filter (\<lambda>x. x \<le> t) (drop (Suc i) tss)"
    by (metis append_take_drop_id filter_append)
  ultimately have "length (filter (\<lambda>x. x \<le> t) tss) \<ge> length (take (Suc i) tss)" by simp
  with assms(2) show ?thesis by simp
qed

lemma sorted_count_le:
  assumes "sorted (tss :: int list)" and "i < length tss" and "t < tss ! i"
  shows "length (filter (\<lambda>x. x \<le> t) tss) \<le> i"
proof -
  have "\<forall>x \<in> set (drop i tss). \<not> x \<le> t"
  proof
    fix x assume "x \<in> set (drop i tss)"
    then obtain k where "k < length tss - i" "x = tss ! (i + k)"
      by (auto simp: in_set_conv_nth)
    then obtain j where "i \<le> j" "j < length tss" "x = tss ! j"
      by (metis le_add1 less_diff_conv add.commute)
    with assms have "tss ! i \<le> x" by (simp add: sorted_nth_mono)
    with assms(3) show "\<not> x \<le> t" by simp
  qed
  then have "filter (\<lambda>x. x \<le> t) (drop i tss) = []" by simp
  moreover have "filter (\<lambda>x. x \<le> t) tss =
      filter (\<lambda>x. x \<le> t) (take i tss) @ filter (\<lambda>x. x \<le> t) (drop i tss)"
    by (metis append_take_drop_id filter_append)
  ultimately have "length (filter (\<lambda>x. x \<le> t) tss) = length (filter (\<lambda>x. x \<le> t) (take i tss))"
    by simp
  also have "\<dots> \<le> length (take i tss)" by (rule length_filter_le)
  finally show ?thesis by simp
qed

text \<open>
  From a cursor that is not ahead of \<open>t\<close> the loop stops on the last bucket closed at
  or before \<open>t\<close>, or stays on the first one.
\<close>

lemma move_vpin_index_count:
  "sorted tss \<Longrightarrow> idx < length tss \<Longrightarrow> idx = 0 \<or> tss ! idx \<le> t \<Longrightarrow>
   fst (move_vpin_index tss vs t idx latest) = length (filter (\<lambda>x. x \<le> t) tss) - 1"
proof (induction tss vs t idx latest rule: move_vpin_index.induct)
  case (1 tss vs t idx latest)
  note srt = \<open>sorted tss\<close> and lt = \<open>idx < length tss\<close> and behind = \<open>idx = 0 \<or> tss ! idx \<le> t\<close>
  show ?case
  proof (cases "idx + 1 < length tss \<and> tss ! (idx + 1) \<le> t")
    case True
    with 1 show ?thesis by (simp add: move_vpin_index_go[OF True])
  next
    case False
    have "length (filter (\<lambda>x. x \<le> t) tss) - 1 = idx"
    proof (cases "idx + 1 < length tss")
      case True
      with False have "t < tss ! (idx + 1)" by simp
      from sorted_count_le[OF srt True this] have le: "length (filter (\<lambda>x. x \<le> t) tss) \<le> idx + 1" .
      show ?thesis
      proof (cases "idx = 0")
        case True
        with le show ?thesis by simp
      next
        case False
        with behind have "tss ! idx \<le> t" by simp
        from sorted_count_gt[OF srt lt this] le show ?thesis by simp
      qed
    next
      case nlt: False
      have le: "length (filter (\<lambda>x. x \<le> t) tss) \<le> length tss" by (rule length_filter_le)
      show ?thesis
      proof (cases "idx = 0")
        case True
        from lt nlt True have "length tss = 1" by linarith
        with le True show ?thesis by linarith
      next
        case nz: False
        with behind have "tss ! idx \<le> t" by simp
        from sorted_count_gt[OF srt lt this] le nlt show ?thesis by linarith
      qed
    qed
    then show ?thesis by (simp add: move_vpin_index_stop[OF False])
  qed
qed

lemma move_vpin_index_behind:
  "idx = 0 \<or> tss ! idx \<le> t \<Longrightarrow>
   fst (move_vpin_index tss vs t idx latest) = 0 \<or> tss ! fst (move_vpin_index tss vs t idx latest) \<le> t"
proof (induction tss vs t idx latest rule: move_vpin_index.induct)
  case (1 tss vs t idx latest)
  show ?case
  proof (cases "idx + 1 < length tss \<and> tss ! (idx + 1) \<le> t")
    case True
    with 1 show ?thesis by (simp add: move_vpin_index_go[OF True])
  next
    case False
    with 1 show ?thesis by (simp add: move_vpin_index_stop[OF False])
  qed
qed


lemma fee_loop_vpin_used:
  assumes srt: "sorted tss"
  shows "sorted (map timestamp rows) \<Longrightarrow> vpin_idx st < length tss \<Longrightarrow>
     latest_vpin st = Some (vs ! vpin_idx st) \<Longrightarrow>
     vpin_idx st = 0 \<or> (\<forall>r \<in> set rows. tss ! vpin_idx st \<le> timestamp r) \<Longrightarrow>
     fee_loop pp tss vs base st rows = Inr (st', outs) \<Longrightarrow> i < length rows \<Longrightarrow>
     vpin_used (outs ! i) = Some (vs ! (length (filter (\<lambda>x. x \<le> timestamp (rows ! i)) tss) - 1))"
proof (induction rows arbitrary: st outs i)
  case Nil
  then show ?case by simp
next
  case (Cons row rows)
  from Cons.prems(5) obtain st1 out1 outs1 where
    s: "fee_step pp tss vs base st row = Inr (st1, out1)"
    and l: "fee_loop pp tss vs base st1 rows = Inr (st', outs1)"
    and o: "outs = out1 # outs1"
    by (auto split: sum.splits prod.splits)
  let ?mv = "move_vpin_index tss vs (timestamp row) (vpin_idx st) (latest_vpin st)"
  have behind: "vpin_idx st = 0 \<or> tss ! vpin_idx st \<le> timestamp row"
    using Cons.prems(4) by auto
  have idx1: "vpin_idx st1 = length (filter (\<lambda>x. x \<le> timestamp row) tss) - 1"
    using fee_step_state(1)[OF s] move_vpin_index_count[OF srt Cons.prems(2) behind] by simp
  have lt1: "vpin_idx st1 < length tss"
    using fee_step_state(1)[OF s] move_vpin_index_lt[OF Cons.prems(2)] by simp
  have lv1: "latest_vpin st1 = Some (vs ! vpin_idx st1)"
    using fee_step_state(1,2)[OF s] move_vpin_index_latest[OF Cons.prems(3)] by simp
  show ?case
  proof (cases i)
    case 0
    with o fee_step_state(3)[OF s] lv1 idx1 show ?thesis by simp
  next
    case (Suc j)
    with Cons.prems(6) have j: "j < length rows" by simp
    have srt': "sorted (map timestamp rows)" using Cons.prems(1) by simp
    have b1: "vpin_idx st1 = 0 \<or> tss ! vpin_idx st1 \<le> timestamp row"
      using fee_step_state(1)[OF s] move_vpin_index_behind[OF behind] by simp
    have "vpin_idx st1 = 0 \<or> (\<forall>r \<in> set rows. tss ! vpin_idx st1 \<le> timestamp r)"
    proof (cases "vpin_idx st1 = 0")
      case False
      with b1 have "tss ! vpin_idx st1 \<le> timestamp row" by simp
      moreover have "\<forall>r \<in> set rows. timestamp row \<le> timestamp r" using Cons.prems(1) by simp
      ultimately show ?thesis by force
    qed simp
    from Cons.IH[OF srt' lt1 lv1 this l j] o Suc show ?thesis by simp
  qed
qed

lemma fee_loop_no_vpin:
  "latest_vpin st = None \<Longrightarrow> fee_loop pp [] vs base st rows = Inr (st', outs) \<Longrightarrow>
   i < length rows \<Longrightarrow> vpin_used (outs ! i) = None"
proof (induction rows arbitrary: st outs i)
  case Nil
  then show ?case by simp
next
  case (Cons row rows)
  from Cons.prems(2) obtain st1 out1 outs1 where
    s: "fee_step pp [] vs base st row = Inr (st1, out1)"
    and l: "fee_loop pp [] vs base st1 rows = Inr (st', outs1)"
    and o: "outs = out1 # outs1"
    by (auto split: sum.splits prod.splits)
  have lv1: "latest_vpin st1 = None"
    using fee_step_state(2)[OF s] Cons.prems(1) by (simp add: move_vpin_index_empty)
  show ?case
  proof (cases i)
    case 0
    with o fee_step_state(3)[OF s] lv1 show ?thesis by simp
  next
    case (Suc j)
    with Cons.prems(3) have "j < length rows" by simp
    from Cons.IH[OF lv1 l this] o Suc show ?thesis by simp
  qed
qed

text \<open>In a table sorted by closing time the toxicity in force is found by counting.\<close>

lemma toxicity_at_count:
  assumes "sorted (map bucket_timestamp vd)" and "vd \<noteq> []"
  shows "toxicity_at vd col t =
     Some (map col vd ! (length (filter (\<lambda>x. x \<le> t) (map bucket_timestamp vd)) - 1))"
proof -
  let ?P = "\<lambda>b. bucket_timestamp b \<le> t"
  let ?c = "length (filter ?P vd)"
  have c: "length (filter (\<lambda>x. x \<le> t) (map bucket_timestamp vd)) = ?c"
    by (simp add: filter_map comp_def)
  from assms(2) obtain b0 rest where vd: "vd = b0 # rest" by (cases vd) auto
  show ?thesis
  proof (cases "filter ?P vd = []")
    case True
    then show ?thesis unfolding c by (simp add: toxicity_at_def vd)
  next
    case False
    then have pos: "0 < ?c" by simp
    have le: "?c \<le> length vd" by (rule length_filter_le)
    have "last (filter ?P vd) = vd ! (?c - 1)"
    proof -
      have "last (filter ?P vd) \<in> set (filter ?P vd)" using False by (rule last_in_set)
      then have "?P (last (filter ?P vd))" by simp
      have "filter ?P vd = take ?c vd"
        using assms(1)
      proof (induction vd)
        case Nil
        then show ?case by simp
      next
        case (Cons b bs)
        show ?case
        proof (cases "bucket_timestamp b \<le> t")
          case True
          with Cons show ?thesis by simp
        next
          case False
          with Cons.prems have "\<forall>x \<in> set bs. \<not> bucket_timestamp x \<le> t" by force
          then have "filter (\<lambda>b. bucket_timestamp b \<le> t) bs = []" by simp
          with False show ?thesis by simp
        qed
      qed
      then have "last (filter ?P vd) = last (take ?c vd)" by simp
      also have "\<dots> = take ?c vd ! (?c - 1)"
        using pos le by (subst last_conv_nth) auto
      also have "\<dots> = vd ! (?c - 1)" using pos by simp
      finally show ?thesis .
    qed
    moreover have "?c - 1 < length vd" using pos le by linarith
    moreover have "toxicity_at vd col t = Some (col (last (filter ?P vd)))"
      using False by (auto simp: toxicity_at_def split: list.splits)
    ultimately show ?thesis unfolding c by simp
  qed
qed


subsection \<open>The fee table\<close>

lemma fees_run:
  assumes "calculate_fees_with_vpin_full_timeseries data (Some vd) pp vt base = Inr outs"
    and "vpin_column vt = Some col"
  shows "\<exists>stf. fee_loop pp (map bucket_timestamp vd) (map col vd) base (fee_initial (map col vd)) data
           = Inr (stf, outs)"
  using assms
  by (auto simp: calculate_fees_with_vpin_full_timeseries_def Let_def split: sum.splits prod.splits)

lemma fee_step_returns_iff:
  "(\<exists>r. fee_step pp tss vs base st row = Inr r) \<longleftrightarrow>
     (if tradevolume row = 0 then inventory_exposure_local st \<noteq> None
      else \<exists>ps. calculate_token_amounts_at_price (price row) pp = Inr ps)"
proof (cases "tradevolume row = 0")
  case True
  then show ?thesis
    by (cases "inventory_exposure_local st") (simp_all add: fee_step_zero_eq Let_def)
next
  case False
  then show ?thesis
    by (cases "calculate_token_amounts_at_price (price row) pp") (simp_all add: fee_step_traded_eq Let_def)
qed

text \<open>
  The loop returns a table unless the position model raises on a traded row or the
  first row has zero volume while \<open>inventory_exposure\<close> is unbound.
\<close>

lemma fee_loop_returns_iff:
  "(\<exists>r. fee_loop pp tss vs base st rows = Inr r) \<longleftrightarrow>
     (\<forall>x \<in> set rows. tradevolume x \<noteq> 0 \<longrightarrow>
         (\<exists>ps. calculate_token_amounts_at_price (price x) pp = Inr ps))
     \<and> (rows = [] \<or> tradevolume (hd rows) \<noteq> 0 \<or> inventory_exposure_local st \<noteq> None)"
proof (induction rows arbitrary: st)
  case Nil
  show ?case by simp
next
  case (Cons row rows)
  show ?case
  proof (cases "\<exists>r. fee_step pp tss vs base st row = Inr r")
    case False
    then have "\<forall>r. fee_loop pp tss vs base st (row # rows) \<noteq> Inr r"
      by (auto split: sum.splits prod.splits)
    moreover from False fee_step_returns_iff[of pp tss vs base st row]
    have "\<not> ((\<forall>x \<in> set (row # rows). tradevolume x \<noteq> 0 \<longrightarrow>
         (\<exists>ps. calculate_token_amounts_at_price (price x) pp = Inr ps))
       \<and> (tradevolume row \<noteq> 0 \<or> inventory_exposure_local st \<noteq> None))"
      by (auto split: if_splits)
    ultimately show ?thesis by auto
  next
    case True
    then obtain st1 out1 where s: "fee_step pp tss vs base st row = Inr (st1, out1)" by auto
    have l1: "inventory_exposure_local st1 \<noteq> None" using fee_step_state(6)[OF s] by simp
    have "(\<exists>r. fee_loop pp tss vs base st (row # rows) = Inr r) \<longleftrightarrow>
        (\<exists>r. fee_loop pp tss vs base st1 rows = Inr r)"
      using s by (auto split: sum.splits prod.splits)
    also have "\<dots> \<longleftrightarrow> (\<forall>x \<in> set rows. tradevolume x \<noteq> 0 \<longrightarrow>
         (\<exists>ps. calculate_token_amounts_at_price (price x) pp = Inr ps))"
      using Cons.IH[of st1] l1 by simp
    finally show ?thesis
      using True fee_step_returns_iff[of pp tss vs base st row] by (auto split: if_splits)
  qed
qed

lemma fees_returned_iff:
  assumes "vpin_column vt = Some col"
  shows "(\<exists>outs. calculate_fees_with_vpin_full_timeseries data (Some vd) pp vt base = Inr outs) \<longleftrightarrow>
     (\<forall>x \<in> set data. tradevolume x \<noteq> 0 \<longrightarrow>
         (\<exists>ps. calculate_token_amounts_at_price (price x) pp = Inr ps))
     \<and> (data = [] \<or> tradevolume (hd data) \<noteq> 0)"
proof -
  have "(\<exists>outs. calculate_fees_with_vpin_full_timeseries data (Some vd) pp vt base = Inr outs) \<longleftrightarrow>
      (\<exists>r. fee_loop pp (map bucket_timestamp vd) (map col vd) base (fee_initial (map col vd)) data = Inr r)"
    using assms
    by (auto simp: calculate_fees_with_vpin_full_timeseries_def Let_def split: sum.splits prod.splits)
  then show ?thesis unfolding fee_loop_returns_iff by (simp add: fee_initial_def)
qed

text \<open>
  C2, amended: with both tables sorted by time, the toxicity used to price a trade is
  the chosen column of the most recently closed bucket whose closing timestamp is at or
  before the trade's timestamp; for a trade that precedes the first bucket's closing
  timestamp it is the first bucket's value; it is unavailable, and the fee component 0,
  only when the table has no bucket at all.  So the toxicity fee of a trade never
  depends on a bucket other than the first that closes after the trade.
\<close>

theorem toxicity_in_force:
  assumes run: "calculate_fees_with_vpin_full_timeseries data (Some vd) pp vt base = Inr outs"
    and col: "vpin_column vt = Some col"
    and srt: "sorted (map bucket_timestamp vd)" "sorted (map timestamp data)"
    and i: "i < length data"
  shows "vpin_used (outs ! i) = toxicity_at vd col (timestamp (data ! i))
       \<and> vpin_fee_pct_of_volume (outs ! i) =
           (case toxicity_at vd col (timestamp (data ! i)) of
              Some v \<Rightarrow> fmul (expected_impermanent_loss (outs ! i)) v
            | None \<Rightarrow> Fin 0)"
proof -
  let ?tss = "map bucket_timestamp vd" and ?vs = "map col vd"
  from fees_run[OF run col] obtain stf where
    loop: "fee_loop pp ?tss ?vs base (fee_initial ?vs) data = Inr (stf, outs)" by blast
  have used: "vpin_used (outs ! i) = toxicity_at vd col (timestamp (data ! i))"
  proof (cases "vd = []")
    case True
    with loop have "fee_loop pp [] ?vs base (fee_initial ?vs) data = Inr (stf, outs)" by simp
    from fee_loop_no_vpin[OF _ this i] True show ?thesis
      by (simp add: fee_initial_def toxicity_at_def)
  next
    case False
    have "vpin_used (outs ! i) =
        Some (?vs ! (length (filter (\<lambda>x. x \<le> timestamp (data ! i)) ?tss) - 1))"
      by (rule fee_loop_vpin_used[OF srt(1) srt(2) _ _ _ loop i])
         (use False in \<open>simp_all add: fee_initial_def\<close>)
    with toxicity_at_count[OF srt(1) False] show ?thesis by simp
  qed
  from fee_loop_nth[OF loop i] obtain sti sti' where
    "fee_step pp ?tss ?vs base sti (data ! i) = Inr (sti', outs ! i)" by blast
  from fee_step_fees[OF this] used show ?thesis by simp
qed

text \<open>
  C4, amended: for every trade of zero volume the estimated price impact, the expected
  impermanent loss, the base fee, the toxicity fee, the total fee and the fee
  percentage are zero; the toxicity cursor moves by the trade's timestamp as for any
  other trade; and the impact cache is updated as for any other trade: it becomes the
  row's own observation when that is present and not zero, and is unchanged otherwise.
\<close>

theorem zero_volume_trade:
  assumes run: "calculate_fees_with_vpin_full_timeseries data (Some vd) pp vt base = Inr outs"
    and col: "vpin_column vt = Some col"
    and i: "i < length data" and zero: "tradevolume (data ! i) = 0"
  shows "estimated_price_impact (outs ! i) = Fin 0 \<and> expected_impermanent_loss (outs ! i) = Fin 0
       \<and> base_fee (outs ! i) = 0 \<and> vpin_fee_absolute (outs ! i) = Fin 0
       \<and> total_fee (outs ! i) = Fin 0 \<and> fee_pct_of_volume (outs ! i) = Fin 0
       \<and> (\<forall>y. vpin_used (outs ! i) = Some (Fin y) \<longrightarrow> vpin_fee_pct_of_volume (outs ! i) = Fin 0)
       \<and> (vpin_used (outs ! i) = None \<longrightarrow> vpin_fee_pct_of_volume (outs ! i) = Fin 0)
       \<and> (\<exists>sti sti'.
             fee_loop pp (map bucket_timestamp vd) (map col vd) base (fee_initial (map col vd)) (take i data)
               = Inr (sti, take i outs)
           \<and> fee_loop pp (map bucket_timestamp vd) (map col vd) base (fee_initial (map col vd)) (take (Suc i) data)
               = Inr (sti', take (Suc i) outs)
           \<and> (vpin_idx sti', latest_vpin sti') =
               move_vpin_index (map bucket_timestamp vd) (map col vd) (timestamp (data ! i))
                 (vpin_idx sti) (latest_vpin sti)
           \<and> latest_illiq sti' =
               (if valid_impact (ILLIQ (data ! i)) then Some (ILLIQ (data ! i)) else latest_illiq sti))"
proof -
  let ?tss = "map bucket_timestamp vd" and ?vs = "map col vd"
  from fees_run[OF run col] obtain stf where
    loop: "fee_loop pp ?tss ?vs base (fee_initial ?vs) data = Inr (stf, outs)" by blast
  from fee_loop_nth[OF loop i] obtain sti sti' where
    a: "fee_loop pp ?tss ?vs base (fee_initial ?vs) (take i data) = Inr (sti, take i outs)"
    and s: "fee_step pp ?tss ?vs base sti (data ! i) = Inr (sti', outs ! i)"
    and b: "fee_loop pp ?tss ?vs base (fee_initial ?vs) (take (Suc i) data) = Inr (sti', take (Suc i) outs)"
    by blast
  have "(vpin_idx sti', latest_vpin sti') =
      move_vpin_index ?tss ?vs (timestamp (data ! i)) (vpin_idx sti) (latest_vpin sti)"
    using fee_step_state(1,2)[OF s] by (simp add: prod_eq_iff)
  moreover have "latest_illiq sti' =
      (if valid_impact (ILLIQ (data ! i)) then Some (ILLIQ (data ! i)) else latest_illiq sti)"
    using fee_step_state(4)[OF s] by (simp add: current_illiq_of_valid)
  moreover have "estimated_price_impact (outs ! i) = Fin 0 \<and> expected_impermanent_loss (outs ! i) = Fin 0
       \<and> base_fee (outs ! i) = 0 \<and> vpin_fee_absolute (outs ! i) = Fin 0
       \<and> total_fee (outs ! i) = Fin 0 \<and> fee_pct_of_volume (outs ! i) = Fin 0"
    using fee_step_zero[OF s zero] fee_step_fees[OF s] zero by simp
  moreover have "\<forall>y. vpin_used (outs ! i) = Some (Fin y) \<longrightarrow> vpin_fee_pct_of_volume (outs ! i) = Fin 0"
    using fee_step_zero[OF s zero] fee_step_fees[OF s] by simp
  moreover have "vpin_used (outs ! i) = None \<longrightarrow> vpin_fee_pct_of_volume (outs ! i) = Fin 0"
    using fee_step_fees[OF s] by simp
  ultimately show ?thesis using a b by blast
qed

text \<open>
  C5: for a trade of positive absolute volume \<open>a\<close>, priced with the prior valid impact
  \<open>x\<close> and the toxicity \<open>y\<close>, the position model gives an exposure \<open>e\<close> at the
  trade's price and: estimated price impact \<open>= x * a / 1,000,000\<close>; expected
  impermanent loss \<open>= impact * e\<close>; toxicity fee fraction \<open>= loss * y\<close>; base fee
  \<open>= rate * a\<close> (the rate being \<open>base_fee_pct / 100\<close>); total fee \<open>= base fee +
  fraction * a\<close>.  The instance of the spec (\<open>x = 1,000,000\<close>, \<open>a = 10\<close>, \<open>e = 0.4\<close>,
  \<open>y = 0.3\<close>, rate \<open>0.05%\<close>, total fee \<open>12.005\<close>) is the witness below.
\<close>

theorem fee_formulas:
  assumes run: "calculate_fees_with_vpin_full_timeseries data (Some vd) pp vt base = Inr outs"
    and col: "vpin_column vt = Some col"
    and i: "i < length data" and pos: "0 < \<bar>tradevolume (data ! i)\<bar>"
    and prior: "latest_valid_impact (take i data) = Some (Fin x)"
    and tox: "vpin_used (outs ! i) = Some (Fin y)"
  shows "\<exists>ps. calculate_token_amounts_at_price (price (data ! i)) pp = Inr ps
       \<and> estimated_price_impact (outs ! i) = Fin (x * \<bar>tradevolume (data ! i)\<bar> / 1000000)
       \<and> expected_impermanent_loss (outs ! i) =
            Fin (x * \<bar>tradevolume (data ! i)\<bar> / 1000000 * inventory_exposure ps)
       \<and> vpin_fee_pct_of_volume (outs ! i) =
            Fin (x * \<bar>tradevolume (data ! i)\<bar> / 1000000 * inventory_exposure ps * y)
       \<and> base_fee (outs ! i) = base / 100 * \<bar>tradevolume (data ! i)\<bar>
       \<and> total_fee (outs ! i) =
            Fin (base / 100 * \<bar>tradevolume (data ! i)\<bar>
                 + x * \<bar>tradevolume (data ! i)\<bar> / 1000000 * inventory_exposure ps * y
                   * \<bar>tradevolume (data ! i)\<bar>)"
proof -
  let ?tss = "map bucket_timestamp vd" and ?vs = "map col vd"
  define a where "a = \<bar>tradevolume (data ! i)\<bar>"
  from pos have nz: "tradevolume (data ! i) \<noteq> 0" by auto
  from fees_run[OF run col] obtain stf where
    loop: "fee_loop pp ?tss ?vs base (fee_initial ?vs) data = Inr (stf, outs)" by blast
  from fee_loop_nth[OF loop i] obtain sti sti' where
    pre: "fee_loop pp ?tss ?vs base (fee_initial ?vs) (take i data) = Inr (sti, take i outs)"
    and s: "fee_step pp ?tss ?vs base sti (data ! i) = Inr (sti', outs ! i)"
    by blast
  have "latest_illiq sti = Some (Fin x)"
    using fee_loop_latest_illiq[OF pre] prior by (simp add: fee_initial_def)
  with fee_step_traded[OF s nz] obtain ps where
    ps: "calculate_token_amounts_at_price (price (data ! i)) pp = Inr ps"
    and epi: "estimated_price_impact (outs ! i) = Fin (x * a / 1000000)"
    and eil: "expected_impermanent_loss (outs ! i) = fmul (estimated_price_impact (outs ! i)) (Fin (inventory_exposure ps))"
    unfolding a_def by auto
  from fee_step_fees[OF s] nz tox have
    bf: "base_fee (outs ! i) = base / 100 * a"
    and vfp: "vpin_fee_pct_of_volume (outs ! i) = fmul (expected_impermanent_loss (outs ! i)) (Fin y)"
    and vfa: "vpin_fee_absolute (outs ! i) = fmul (vpin_fee_pct_of_volume (outs ! i)) (Fin a)"
    and tf: "total_fee (outs ! i) = fadd (Fin (base_fee (outs ! i))) (vpin_fee_absolute (outs ! i))"
    unfolding a_def by simp_all
  show ?thesis unfolding a_def[symmetric]
    using ps by (simp add: epi eil vfp vfa tf bf)
qed


lemma fee_step_blank_zero:
  "fee_step pp tss vs base st (blank_zero row) = fee_step pp tss vs base st row"
proof (cases "ILLIQ row = Fin 0")
  case True
  then have "current_illiq_of (row\<lparr>ILLIQ := NaN\<rparr>) = current_illiq_of row"
    by (simp add: current_illiq_of_def)
  with True show ?thesis
    by (simp add: blank_zero_def fee_step_def Let_def split_beta
        cong: sum.case_cong option.case_cong if_cong)
next
  case False
  then show ?thesis by (simp add: blank_zero_def)
qed

lemma fee_loop_blank_zero:
  "fee_loop pp tss vs base st (map blank_zero rows) = fee_loop pp tss vs base st rows"
  by (induction rows arbitrary: st) (auto simp: fee_step_blank_zero split: sum.splits prod.splits)

text \<open>
  C6, amended: an observation of exactly zero is treated as absent (the fee table is
  the same as with an empty cell in its place, error or not), and so is an empty cell;
  the impact used for a trade's own fee is the last observation that was present and
  non-zero on a strictly earlier row, never the row's own.  An infinite observation
  counts as present.
\<close>

theorem impact_carried_forward:
  "calculate_fees_with_vpin_full_timeseries (map blank_zero data) vpin_data pp vt base
     = calculate_fees_with_vpin_full_timeseries data vpin_data pp vt base
   \<and> (calculate_fees_with_vpin_full_timeseries data (Some vd) pp vt base = Inr outs
        \<longrightarrow> vpin_column vt = Some col \<longrightarrow> i < length data \<longrightarrow>
          estimated_price_impact (outs ! i) =
            (if tradevolume (data ! i) = 0 then Fin 0
             else case latest_valid_impact (take i data) of
                    Some v \<Rightarrow> fdiv (fmul v (Fin \<bar>tradevolume (data ! i)\<bar>)) 1000000
                  | None \<Rightarrow> Fin 0)
          \<and> out_ILLIQ (outs ! i) =
              (if valid_impact (ILLIQ (data ! i)) then Some (ILLIQ (data ! i)) else None))"
proof (intro conjI impI)
  show "calculate_fees_with_vpin_full_timeseries (map blank_zero data) vpin_data pp vt base
     = calculate_fees_with_vpin_full_timeseries data vpin_data pp vt base"
    by (simp add: calculate_fees_with_vpin_full_timeseries_def fee_loop_blank_zero Let_def
        split: option.splits)
next
  let ?tss = "map bucket_timestamp vd" and ?vs = "map col vd"
  assume run: "calculate_fees_with_vpin_full_timeseries data (Some vd) pp vt base = Inr outs"
    and col: "vpin_column vt = Some col" and i: "i < length data"
  from fees_run[OF run col] obtain stf where
    loop: "fee_loop pp ?tss ?vs base (fee_initial ?vs) data = Inr (stf, outs)" by blast
  from fee_loop_nth[OF loop i] obtain sti sti' where
    pre: "fee_loop pp ?tss ?vs base (fee_initial ?vs) (take i data) = Inr (sti, take i outs)"
    and s: "fee_step pp ?tss ?vs base sti (data ! i) = Inr (sti', outs ! i)"
    by blast
  have li: "latest_illiq sti = latest_valid_impact (take i data)"
    using fee_loop_latest_illiq[OF pre] by (simp add: fee_initial_def)
  show "estimated_price_impact (outs ! i) =
            (if tradevolume (data ! i) = 0 then Fin 0
             else case latest_valid_impact (take i data) of
                    Some v \<Rightarrow> fdiv (fmul v (Fin \<bar>tradevolume (data ! i)\<bar>)) 1000000
                  | None \<Rightarrow> Fin 0)"
  proof (cases "tradevolume (data ! i) = 0")
    case True
    with fee_step_zero[OF s] show ?thesis by simp
  next
    case False
    with fee_step_traded[OF s] li show ?thesis by auto
  qed
  show "out_ILLIQ (outs ! i) =
      (if valid_impact (ILLIQ (data ! i)) then Some (ILLIQ (data ! i)) else None)"
    using fee_step_state(5)[OF s] by (simp add: current_illiq_of_valid)
qed

subsection \<open>The exposure column\<close>

lemma exposure_carried:
  assumes loop: "fee_loop pp tss vs base (fee_initial vs) data = Inr (stf, outs)"
  shows "i < length data \<Longrightarrow> tradevolume (data ! i) = 0 \<Longrightarrow>
     \<exists>j<i. tradevolume (data ! j) \<noteq> 0 \<and> (\<forall>k. j < k \<and> k \<le> i \<longrightarrow> tradevolume (data ! k) = 0)
        \<and> out_inventory_exposure (outs ! i) = out_inventory_exposure (outs ! j)"
proof (induction i)
  case 0
  from fee_loop_nth[OF loop 0(1)] obtain sti sti' where
    pre: "fee_loop pp tss vs base (fee_initial vs) (take 0 data) = Inr (sti, take 0 outs)"
    and s: "fee_step pp tss vs base sti (data ! 0) = Inr (sti', outs ! 0)"
    by blast
  from pre have "sti = fee_initial vs" by simp
  with fee_step_zero[OF s 0(2)] show ?case by (simp add: fee_initial_def)
next
  case (Suc m)
  from Suc.prems have m: "m < length data" by simp
  from fee_loop_nth[OF loop Suc.prems(1)] obtain sti sti' where
    pre: "fee_loop pp tss vs base (fee_initial vs) (take (Suc m) data) = Inr (sti, take (Suc m) outs)"
    and s: "fee_step pp tss vs base sti (data ! Suc m) = Inr (sti', outs ! Suc m)"
    by blast
  from fee_loop_nth[OF loop m] obtain stm stm' where
    sm: "fee_step pp tss vs base stm (data ! m) = Inr (stm', outs ! m)"
    and post: "fee_loop pp tss vs base (fee_initial vs) (take (Suc m) data) = Inr (stm', take (Suc m) outs)"
    by blast
  from pre post have "sti = stm'" by simp
  with fee_step_state(6)[OF sm] fee_step_zero[OF s Suc.prems(2)]
  have eq: "out_inventory_exposure (outs ! Suc m) = out_inventory_exposure (outs ! m)" by simp
  show ?case
  proof (cases "tradevolume (data ! m) = 0")
    case False
    with eq show ?thesis
      by (intro exI[of _ m]) (auto simp: Suc.prems(2) le_Suc_eq)
  next
    case True
    from Suc.IH[OF m True] obtain j where j: "j < m" "tradevolume (data ! j) \<noteq> 0"
      "\<forall>k. j < k \<and> k \<le> m \<longrightarrow> tradevolume (data ! k) = 0"
      "out_inventory_exposure (outs ! m) = out_inventory_exposure (outs ! j)" by blast
    with eq Suc.prems(2) show ?thesis
      by (intro exI[of _ j]) (auto simp: le_Suc_eq)
  qed
qed

text \<open>
  C10: the exposure is computed only for trades of non-zero volume.  A tape whose
  first trade has zero volume makes the computation fail with \<open>UnboundLocalError\<close>;
  in a fee table that is returned, the exposure reported for a trade of zero volume is
  the one of the most recent earlier trade of non-zero volume, which was computed at
  that trade's price.
\<close>

theorem exposure_of_zero_volume_trade:
  "(vpin_column vt = Some col \<longrightarrow> data \<noteq> [] \<longrightarrow> tradevolume (hd data) = 0 \<longrightarrow>
      calculate_fees_with_vpin_full_timeseries data (Some vd) pp vt base = Inl UnboundLocalError)
   \<and> (calculate_fees_with_vpin_full_timeseries data (Some vd) pp vt base = Inr outs
        \<longrightarrow> vpin_column vt = Some col \<longrightarrow> i < length data \<longrightarrow>
          (tradevolume (data ! i) \<noteq> 0 \<longrightarrow>
             (\<exists>ps. calculate_token_amounts_at_price (price (data ! i)) pp = Inr ps
                 \<and> out_inventory_exposure (outs ! i) = inventory_exposure ps))
        \<and> (tradevolume (data ! i) = 0 \<longrightarrow>
             (\<exists>j<i. tradevolume (data ! j) \<noteq> 0
                 \<and> (\<forall>k. j < k \<and> k \<le> i \<longrightarrow> tradevolume (data ! k) = 0)
                 \<and> out_inventory_exposure (outs ! i) = out_inventory_exposure (outs ! j))))"
proof (intro conjI impI)
  assume col: "vpin_column vt = Some col" and ne: "data \<noteq> []" and z: "tradevolume (hd data) = 0"
  from ne obtain row rows where d: "data = row # rows" by (cases data) auto
  with z have "fee_step pp (map bucket_timestamp vd) (map col vd) base (fee_initial (map col vd)) row
      = Inl UnboundLocalError"
    by (intro fee_step_unbound) (simp_all add: fee_initial_def)
  with col d show "calculate_fees_with_vpin_full_timeseries data (Some vd) pp vt base = Inl UnboundLocalError"
    by (simp add: calculate_fees_with_vpin_full_timeseries_def Let_def)
next
  let ?tss = "map bucket_timestamp vd" and ?vs = "map col vd"
  assume run: "calculate_fees_with_vpin_full_timeseries data (Some vd) pp vt base = Inr outs"
    and col: "vpin_column vt = Some col" and i: "i < length data"
  from fees_run[OF run col] obtain stf where
    loop: "fee_loop pp ?tss ?vs base (fee_initial ?vs) data = Inr (stf, outs)" by blast
  {
    assume nz: "tradevolume (data ! i) \<noteq> 0"
    from fee_loop_nth[OF loop i] obtain sti sti' where
      s: "fee_step pp ?tss ?vs base sti (data ! i) = Inr (sti', outs ! i)" by blast
    from fee_step_traded[OF s nz]
    show "\<exists>ps. calculate_token_amounts_at_price (price (data ! i)) pp = Inr ps
                 \<and> out_inventory_exposure (outs ! i) = inventory_exposure ps" by blast
  }
  {
    assume z: "tradevolume (data ! i) = 0"
    from exposure_carried[OF loop i z]
    show "\<exists>j<i. tradevolume (data ! j) \<noteq> 0
                 \<and> (\<forall>k. j < k \<and> k \<le> i \<longrightarrow> tradevolume (data ! k) = 0)
                 \<and> out_inventory_exposure (outs ! i) = out_inventory_exposure (outs ! j)" .
  }
qed

section \<open>Evaluated scenarios\<close>


lemmas aggregator_defs =
  bucket_pass_def fill_buckets.simps fill_step_def emit_bucket_def reset_bucket_def
  initial_state_def final_bucket_def push_imbalance_def np_mean_def Let_def

text \<open>
  C3, as stated: on the tape \<open>[+30, -20, +60]\<close> with bucket size 50 the three buckets are
  \<open>(50, 10, 0.2)\<close>, \<open>(50, 50, 1)\<close> and a last, partial one \<open>(10, 10, 0.2)\<close>.  The code
  gives the last bucket the net volume \<open>5/3\<close> and the imbalance \<open>1/30\<close>.
\<close>

theorem scenario_last_bucket_counterexample:
  "emitted (bucket_pass 50 scenario_tape) \<noteq> Some [(50, 10, 1 / 5), (50, 50, 1), (10, 10, 1 / 5)]"
  by (simp add: emitted_def bucket_summary_def scenario_tape_def trade_def aggregator_defs)

text \<open>
  C3, amended: on that tape the aggregator emits exactly three buckets, the first with
  absolute volume 50, net volume 10 and imbalance 0.2, the second with absolute volume
  50, net volume 50 and imbalance 1, and a last one of absolute volume 10, below the
  bucket size; a bucket has no field that marks it partial.
\<close>

theorem scenario_buckets:
  "\<exists>st. bucket_pass 50 scenario_tape = Some st
     \<and> length (bucket_details st) = 3
     \<and> map bucket_summary (take 2 (bucket_details st)) = [(50, 10, 1 / 5), (50, 50, 1)]
     \<and> bucket_abs_volume (bucket_details st ! 2) = 10
     \<and> bucket_abs_volume (bucket_details st ! 2) < 50"
  by (simp add: bucket_summary_def scenario_tape_def trade_def aggregator_defs)

text \<open>
  The third trade of the scenario alone: a trade of \<open>+60\<close> with bucket size 50 fills
  one bucket with 50 and leaves 10 in the next.  The second fragment of net volume is
  \<open>10 * (10 / 60)\<close>, the remaining net volume times the fragment's share of the whole
  trade.
\<close>

lemma split_trade_fragments:
  "emitted (bucket_pass 50 [trade 1 60]) = Some [(50, 50, 1), (10, 5 / 3, 1 / 30)]"
  by (simp add: emitted_def bucket_summary_def trade_def aggregator_defs)

text \<open>
  C1, on a tape it fails on: forty-eight unit trades and a trade of \<open>+2\<close>, all on one
  day, so that the bucket size is 1.  The last trade is split across the last two
  buckets.  Its absolute volume is conserved (\<open>1 + 1\<close>); its net volume is not: the
  fragments are 1 and \<open>1/2\<close>, and the net volumes of the fifty buckets add up to
  \<open>99/2\<close> where the signed volumes of the tape add up to 50.
\<close>

theorem split_trade_net_volume_lost:
  "\<exists>bs. calculate_vpin split_tape = Some (Inr bs) \<and> length bs = 50
     \<and> map bucket_summary (drop 48 bs) = [(1, 1, 1), (1, 1 / 2, 1 / 2)]
     \<and> sum_list (map bucket_abs_volume bs) = sum_list (map (\<lambda>r. \<bar>tradevolume r\<bar>) split_tape)
     \<and> sum_list (map bucket_net_volume bs) = 99 / 2
     \<and> sum_list (map tradevolume split_tape) = 50"
  by (simp add: calculate_vpin_def run_buckets_def bucket_size_of_def daily_volume_def date_def
      split_tape_def trade_def bucket_summary_def upt_rec[of _ "numeral _"] aggregator_defs)

text \<open>The run on fifty unit trades of one day: bucket size 1, fifty buckets.\<close>

lemma unit_tape_size: "bucket_size_of (traded unit_tape) = Fin 1"
  by (simp add: unit_tape_def trade_def bucket_size_of_def daily_volume_def date_def np_mean_def
      upt_rec[of _ "numeral _"])

lemma unit_tape_run:
  "\<exists>st. run_buckets unit_tape = Some st \<and> length (bucket_details st) = 50"
  by (simp add: run_buckets_def bucket_size_of_def daily_volume_def date_def unit_tape_def
      trade_def upt_rec[of _ "numeral _"] aggregator_defs)

theorem rolling_windows_witness:
  "bucket_size_of (traded unit_tape) = Fin 1 \<and> (0::real) < 1
   \<and> (\<exists>st. run_buckets unit_tape = Some st \<and> 0 < length (bucket_details st)
         \<and> length (imbalances_daily st) \<le> 50
         \<and> vpin_daily (bucket_details st ! 0)
             = Fin (mean (window 50 (take (Suc 0) (map order_imbalance (bucket_details st))))))"
proof -
  from rolling_windows[OF unit_tape_size] obtain st where
    st: "run_buckets unit_tape = Some st" "length (imbalances_daily st) \<le> 50"
      "reports 50 vpin_daily (bucket_details st)"
    by auto
  from unit_tape_run st(1) have "0 < length (bucket_details st)" by auto
  with st unit_tape_size show ?thesis by (auto simp: reports_def)
qed


subsection \<open>Fee scenarios\<close>

lemmas fee_defs =
  calculate_fees_with_vpin_full_timeseries_def vpin_column_def fee_initial_def fee_step_def
  move_vpin_index.simps calculate_token_amounts_at_price_def current_illiq_of_def
  priced_trade_def toxic_bucket_def scenario_position_def Let_def

lemma vpin_daily_column: "vpin_column ''vpin_daily'' = Some vpin_daily"
  by (simp add: vpin_column_def)

lemma scenario_exposure:
  "\<exists>ps. calculate_token_amounts_at_price 4 scenario_position = Inr ps \<and> inventory_exposure ps = 2 / 5"
  by (simp add: calculate_token_amounts_at_price_def scenario_position_def Let_def)

lemma priced_tape_run:
  "\<exists>outs. calculate_fees_with_vpin_full_timeseries priced_tape (Some [toxic_bucket 0 (3 / 10)])
        scenario_position ''vpin_daily'' (5 / 100) = Inr outs
     \<and> map fee_summary outs
         = [(Fin 0, Fin 0, Fin 0, 1 / 2000, Fin (1 / 2000)), (Fin 10, Fin 4, Fin (6 / 5), 1 / 200, Fin (2401 / 200))]
     \<and> map vpin_used outs = [Some (Fin (3 / 10)), Some (Fin (3 / 10))]"
  by (simp add: priced_tape_def fee_summary_def fee_defs)

text \<open>
  C2, as stated: a trade that precedes the first bucket's closing timestamp is priced
  with no toxicity.  Both trades of the tape (at times 1 and 2) precede the only bucket,
  which closes at time 10 with toxicity \<open>0.3\<close>; both are priced with \<open>0.3\<close>, and the
  toxicity fee fraction of the second is \<open>1.2\<close>.
\<close>

theorem toxicity_before_first_bucket_counterexample:
  "map_sum id (map toxicity_summary)
     (calculate_fees_with_vpin_full_timeseries priced_tape (Some [toxic_bucket 10 (3 / 10)])
        scenario_position ''vpin_daily'' (5 / 100))
   = Inr [(Some (Fin (3 / 10)), Fin 0), (Some (Fin (3 / 10)), Fin (6 / 5))]"
  by (simp add: priced_tape_def toxicity_summary_def fee_defs)

lemma two_buckets_run:
  "\<exists>outs. calculate_fees_with_vpin_full_timeseries priced_tape
        (Some [toxic_bucket 0 (3 / 10), toxic_bucket 2 (1 / 2)])
        scenario_position ''vpin_daily'' (5 / 100) = Inr outs
     \<and> map vpin_used outs = [Some (Fin (3 / 10)), Some (Fin (1 / 2))]"
  by (simp add: priced_tape_def fee_defs)

text \<open>
  C4, as stated: a trade of zero volume leaves the impact cache unchanged.  The second
  row has zero volume and the observation \<open>2,000,000\<close>; no row before it has one; the
  third trade, of 10 units, is priced with the impact \<open>2,000,000 * 10 / 1,000,000 = 20\<close>.
\<close>

theorem zero_volume_updates_cache_counterexample:
  "map_sum id (map estimated_price_impact)
     (calculate_fees_with_vpin_full_timeseries idle_tape (Some [toxic_bucket 0 (3 / 10)])
        scenario_position ''vpin_daily'' (5 / 100))
   = Inr [Fin 0, Fin 0, Fin 20]"
  by (simp add: idle_tape_def fee_defs)

text \<open>
  C6, as stated: a non-finite observation is treated as absent.  The first row carries
  an infinite observation and the second trade is priced with it.
\<close>

theorem infinite_observation_counterexample:
  "map_sum id (map estimated_price_impact)
     (calculate_fees_with_vpin_full_timeseries infinite_tape (Some [toxic_bucket 0 (3 / 10)])
        scenario_position ''vpin_daily'' (5 / 100))
   = Inr [Fin 0, PInf]"
  by (simp add: infinite_tape_def inf_of_sign_def fee_defs)

lemma idle_tape_run:
  "\<exists>outs. calculate_fees_with_vpin_full_timeseries idle_tape (Some [toxic_bucket 0 (3 / 10)])
        scenario_position ''vpin_daily'' (5 / 100) = Inr outs
     \<and> map out_inventory_exposure outs = [2 / 5, 2 / 5, 2 / 5]
     \<and> map vpin_used outs = [Some (Fin (3 / 10)), Some (Fin (3 / 10)), Some (Fin (3 / 10))]"
  by (simp add: idle_tape_def fee_defs)


theorem toxicity_in_force_witness:
  "\<exists>outs. calculate_fees_with_vpin_full_timeseries priced_tape
        (Some [toxic_bucket 0 (3 / 10), toxic_bucket 2 (1 / 2)])
        scenario_position ''vpin_daily'' (5 / 100) = Inr outs
     \<and> vpin_column ''vpin_daily'' = Some vpin_daily
     \<and> sorted (map bucket_timestamp [toxic_bucket 0 (3 / 10), toxic_bucket 2 (1 / 2)])
     \<and> sorted (map timestamp priced_tape) \<and> 1 < length priced_tape
     \<and> toxicity_at [toxic_bucket 0 (3 / 10), toxic_bucket 2 (1 / 2)] vpin_daily (timestamp (priced_tape ! 1))
         = Some (Fin (1 / 2))
     \<and> vpin_used (outs ! 1) = Some (Fin (1 / 2))
     \<and> vpin_fee_pct_of_volume (outs ! 1) = fmul (expected_impermanent_loss (outs ! 1)) (Fin (1 / 2))"
proof -
  from two_buckets_run obtain outs where
    run: "calculate_fees_with_vpin_full_timeseries priced_tape
        (Some [toxic_bucket 0 (3 / 10), toxic_bucket 2 (1 / 2)])
        scenario_position ''vpin_daily'' (5 / 100) = Inr outs" by (elim exE conjE)
  have srt: "sorted (map bucket_timestamp [toxic_bucket 0 (3 / 10), toxic_bucket 2 (1 / 2)])"
    "sorted (map timestamp priced_tape)"
    by (simp_all add: toxic_bucket_def priced_tape_def priced_trade_def)
  have i: "1 < length priced_tape" by (simp add: priced_tape_def)
  have tox: "toxicity_at [toxic_bucket 0 (3 / 10), toxic_bucket 2 (1 / 2)] vpin_daily (timestamp (priced_tape ! 1))
         = Some (Fin (1 / 2))"
    by (simp add: toxicity_at_def toxic_bucket_def priced_tape_def priced_trade_def)
  from toxicity_in_force[OF run vpin_daily_column srt i] run srt i tox vpin_daily_column
  show ?thesis by simp
qed

theorem zero_volume_trade_witness:
  "\<exists>outs. calculate_fees_with_vpin_full_timeseries idle_tape (Some [toxic_bucket 0 (3 / 10)])
        scenario_position ''vpin_daily'' (5 / 100) = Inr outs
     \<and> vpin_column ''vpin_daily'' = Some vpin_daily
     \<and> 1 < length idle_tape \<and> tradevolume (idle_tape ! 1) = 0
     \<and> estimated_price_impact (outs ! 1) = Fin 0 \<and> expected_impermanent_loss (outs ! 1) = Fin 0
     \<and> base_fee (outs ! 1) = 0 \<and> vpin_fee_absolute (outs ! 1) = Fin 0
     \<and> total_fee (outs ! 1) = Fin 0 \<and> fee_pct_of_volume (outs ! 1) = Fin 0
     \<and> vpin_used (outs ! 1) = Some (Fin (3 / 10)) \<and> vpin_fee_pct_of_volume (outs ! 1) = Fin 0"
proof -
  from idle_tape_run obtain outs where
    run: "calculate_fees_with_vpin_full_timeseries idle_tape (Some [toxic_bucket 0 (3 / 10)])
        scenario_position ''vpin_daily'' (5 / 100) = Inr outs"
    and used: "map vpin_used outs = [Some (Fin (3 / 10)), Some (Fin (3 / 10)), Some (Fin (3 / 10))]"
    by (elim exE conjE)
  have i: "1 < length idle_tape" and z: "tradevolume (idle_tape ! 1) = 0"
    by (simp_all add: idle_tape_def priced_trade_def)
  from used have tox: "vpin_used (outs ! 1) = Some (Fin (3 / 10))"
    by (cases outs; cases "tl outs") auto
  note zero = zero_volume_trade[OF run vpin_daily_column i z]
  from zero have "\<forall>y. vpin_used (outs ! 1) = Some (Fin y) \<longrightarrow> vpin_fee_pct_of_volume (outs ! 1) = Fin 0"
    by blast
  with tox have "vpin_fee_pct_of_volume (outs ! 1) = Fin 0" by blast
  with zero run i z vpin_daily_column tox show ?thesis by blast
qed

theorem fee_formulas_witness:
  "\<exists>outs. calculate_fees_with_vpin_full_timeseries priced_tape (Some [toxic_bucket 0 (3 / 10)])
        scenario_position ''vpin_daily'' (5 / 100) = Inr outs
     \<and> vpin_column ''vpin_daily'' = Some vpin_daily
     \<and> 1 < length priced_tape \<and> 0 < \<bar>tradevolume (priced_tape ! 1)\<bar>
     \<and> \<bar>tradevolume (priced_tape ! 1)\<bar> = 10
     \<and> latest_valid_impact (take 1 priced_tape) = Some (Fin 1000000)
     \<and> vpin_used (outs ! 1) = Some (Fin (3 / 10))
     \<and> estimated_price_impact (outs ! 1) = Fin 10
     \<and> expected_impermanent_loss (outs ! 1) = Fin 4
     \<and> vpin_fee_pct_of_volume (outs ! 1) = Fin (12 / 10)
     \<and> base_fee (outs ! 1) = 5 / 1000
     \<and> total_fee (outs ! 1) = Fin (12005 / 1000)"
proof -
  from priced_tape_run obtain outs where
    run: "calculate_fees_with_vpin_full_timeseries priced_tape (Some [toxic_bucket 0 (3 / 10)])
        scenario_position ''vpin_daily'' (5 / 100) = Inr outs"
    and used: "map vpin_used outs = [Some (Fin (3 / 10)), Some (Fin (3 / 10))]"
    by (elim exE conjE)
  have i: "1 < length priced_tape" and v: "\<bar>tradevolume (priced_tape ! 1)\<bar> = 10"
    and p: "price (priced_tape ! 1) = 4"
    by (simp_all add: priced_tape_def priced_trade_def)
  have pos: "0 < \<bar>tradevolume (priced_tape ! 1)\<bar>" unfolding v by simp
  have prior: "latest_valid_impact (take 1 priced_tape) = Some (Fin 1000000)"
    by (simp add: latest_valid_impact_def valid_impact_def priced_tape_def priced_trade_def)
  from used have tox: "vpin_used (outs ! 1) = Some (Fin (3 / 10))"
    by (cases outs; cases "tl outs") auto
  from fee_formulas[OF run vpin_daily_column i pos prior tox] scenario_exposure
  show ?thesis using run i pos prior tox vpin_daily_column unfolding v p by auto
qed

theorem impact_carried_forward_witness:
  "\<exists>outs. calculate_fees_with_vpin_full_timeseries priced_tape (Some [toxic_bucket 0 (3 / 10)])
        scenario_position ''vpin_daily'' (5 / 100) = Inr outs
     \<and> vpin_column ''vpin_daily'' = Some vpin_daily
     \<and> 1 < length priced_tape
     \<and> latest_valid_impact (take 1 priced_tape) = Some (Fin 1000000)
     \<and> estimated_price_impact (outs ! 1) = Fin 10
     \<and> out_ILLIQ (outs ! 1) = None"
proof -
  from priced_tape_run obtain outs where
    run: "calculate_fees_with_vpin_full_timeseries priced_tape (Some [toxic_bucket 0 (3 / 10)])
        scenario_position ''vpin_daily'' (5 / 100) = Inr outs" by (elim exE conjE)
  have i: "1 < length priced_tape" and v: "tradevolume (priced_tape ! 1) = 10"
    and o: "ILLIQ (priced_tape ! 1) = NaN"
    by (simp_all add: priced_tape_def priced_trade_def)
  have prior: "latest_valid_impact (take 1 priced_tape) = Some (Fin 1000000)"
    by (simp add: latest_valid_impact_def valid_impact_def priced_tape_def priced_trade_def)
  from impact_carried_forward[of priced_tape "Some [toxic_bucket 0 (3 / 10)]" scenario_position
      "''vpin_daily''" "5 / 100" "[toxic_bucket 0 (3 / 10)]" outs vpin_daily 1]
    run vpin_daily_column i prior v o
  show ?thesis by (simp add: valid_impact_def)
qed

theorem exposure_of_zero_volume_trade_witness:
  "vpin_column ''vpin_daily'' = Some vpin_daily
   \<and> [priced_trade 1 0 NaN] \<noteq> [] \<and> tradevolume (hd [priced_trade 1 0 NaN]) = 0
   \<and> calculate_fees_with_vpin_full_timeseries [priced_trade 1 0 NaN] (Some [toxic_bucket 0 (3 / 10)])
        scenario_position ''vpin_daily'' (5 / 100) = Inl UnboundLocalError
   \<and> (\<exists>outs. calculate_fees_with_vpin_full_timeseries idle_tape (Some [toxic_bucket 0 (3 / 10)])
        scenario_position ''vpin_daily'' (5 / 100) = Inr outs
      \<and> 1 < length idle_tape \<and> tradevolume (idle_tape ! 1) = 0 \<and> tradevolume (idle_tape ! 0) \<noteq> 0
      \<and> out_inventory_exposure (outs ! 0) = 2 / 5
      \<and> out_inventory_exposure (outs ! 1) = out_inventory_exposure (outs ! 0))"
proof -
  from idle_tape_run obtain outs where
    run: "calculate_fees_with_vpin_full_timeseries idle_tape (Some [toxic_bucket 0 (3 / 10)])
        scenario_position ''vpin_daily'' (5 / 100) = Inr outs" by (elim exE conjE)
  have i: "1 < length idle_tape" and z: "tradevolume (idle_tape ! 1) = 0"
    and nz: "tradevolume (idle_tape ! 0) \<noteq> 0"
    by (simp_all add: idle_tape_def priced_trade_def)
  have first: "tradevolume (hd [priced_trade 1 0 NaN]) = 0" by (simp add: priced_trade_def)
  from exposure_of_zero_volume_trade[of "''vpin_daily''" vpin_daily "[priced_trade 1 0 NaN]"
      "[toxic_bucket 0 (3 / 10)]" scenario_position "5 / 100"] vpin_daily_column first
  have err: "calculate_fees_with_vpin_full_timeseries [priced_trade 1 0 NaN] (Some [toxic_bucket 0 (3 / 10)])
        scenario_position ''vpin_daily'' (5 / 100) = Inl UnboundLocalError" by simp
  from exposure_of_zero_volume_trade[of "''vpin_daily''" vpin_daily idle_tape
      "[toxic_bucket 0 (3 / 10)]" scenario_position "5 / 100" outs 1] run vpin_daily_column i z
  obtain j where "j < 1" "out_inventory_exposure (outs ! 1) = out_inventory_exposure (outs ! j)"
    by auto
  then have carried: "out_inventory_exposure (outs ! 1) = out_inventory_exposure (outs ! 0)" by simp
  have p: "price (idle_tape ! 0) = 4" and i0: "0 < length idle_tape"
    by (simp_all add: idle_tape_def priced_trade_def)
  from exposure_of_zero_volume_trade[of "''vpin_daily''" vpin_daily idle_tape
      "[toxic_bucket 0 (3 / 10)]" scenario_position "5 / 100" outs 0] run vpin_daily_column i0 nz
  obtain ps where "calculate_token_amounts_at_price (price (idle_tape ! 0)) scenario_position = Inr ps"
    "out_inventory_exposure (outs ! 0) = inventory_exposure ps" by auto
  with scenario_exposure have "out_inventory_exposure (outs ! 0) = 2 / 5" unfolding p by auto
  with carried run i z nz err first vpin_daily_column show ?thesis by auto
qed

end
